theory Spec2Isabelle
  imports Main "HOL-Library.AList"
begin

section \<open>Values, evaluation functions and the call log\<close>

text \<open>
  JavaScript values as far as the observer code inspects them: it compares them with
  \<open>===\<close>, tests them for being not-a-number (\<open>v !== v\<close>) and for being objects.
  Numbers are the integers plus the one value NaN; an object is a reference into the heap.
\<close>

datatype jsval = Undefined | Null | Bool bool | Num int | NaN | Str string | Ref nat

type_synonym err = string

text \<open>\<open>a === b\<close>: identity on every value except NaN, which is not equal to itself.\<close>

definition strict_eq :: "jsval \<Rightarrow> jsval \<Rightarrow> bool" where
  "strict_eq a b = (a = b \<and> a \<noteq> NaN)"

text \<open>
  Modelled from the spec: \<open>isObject\<close> is imported from util, which is not among the sources.
  The spec has \<open>run\<close> treat "values that are containers" as always possibly changed and
  \<open>wrap\<close> accept only container values; the containers of the model are the references.
\<close>

fun isObject :: "jsval \<Rightarrow> bool" where
  "isObject (Ref a) = True"
| "isObject v = False"

text \<open>
  The evaluation function of a Watcher (\<open>this.getter\<close>) is an arbitrary JavaScript function.
  It is described by what one call of it does to the observer state: the \<open>dep.depend()\<close>
  calls it reaches (through reactive getters) and the nested \<open>watcher.get()\<close> calls it
  makes, in order, and then whether it returns or throws. A nested call carries the
  description of the nested Watcher's own evaluation function. An exception that escapes a
  nested \<open>get\<close> ends the enclosing evaluation function with that exception.

  \<open>Returns v ds\<close>: the function returns \<open>v\<close>; \<open>ds\<close> are the Deps that \<open>traverse(v)\<close>
  would reach (see \<open>traverse\<close> below).
\<close>

datatype outcome = Returns jsval "nat list" | Throws err

datatype act = Depend nat | Nested nat evaluation
  and evaluation = Evaluation "act list" outcome

text \<open>A property key: a name, or an array index (what \<open>isValidArrayIndex\<close> accepts).\<close>

datatype key = Key string | Idx nat

text \<open>
  The log of calls: calls that leave the observer code (user functions, the error channel,
  warnings) and the entries of \<open>update\<close>, \<open>notify\<close> and \<open>depend\<close>, in the order they happen.
\<close>

datatype event =
    GetterCalled nat
  | DependReached nat "nat option"
  | Updated nat
  | Notified nat
  | CallbackCalled nat jsval jsval
  | Reported err nat string
  | Warned string
  | CustomSetterCalled nat key
  | SetterCalled nat key jsval

section \<open>The state: Deps, Watchers, the target stack, the scheduler queue\<close>

text \<open>
  A Watcher object. Watchers are addressed by their \<open>id\<close>; \<open>'h\<close> is the type of the data
  the evaluation function reads (the heap of observed objects).
\<close>

record 'h watcher =
  vm :: nat
  expression :: string
  cb :: "jsval \<Rightarrow> jsval \<Rightarrow> err option"
  deep :: bool
  user :: bool
  lazy :: bool
  sync :: bool
  dirty :: bool
  active :: bool
  deps :: "nat list"
  newDeps :: "nat list"
  depIds :: "nat set"
  newDepIds :: "nat set"
  getter :: "'h \<Rightarrow> evaluation"
  wvalue :: jsval

record component =
  vm_watchers :: "nat list"
  vm_isBeingDestroyed :: bool

text \<open>
  \<open>subs d\<close> is the subscriber array of the Dep with id \<open>d\<close> (Watcher ids, in array order);
  \<open>target\<close> is \<open>Dep.target\<close>, \<open>None\<close> standing for both \<open>null\<close> and \<open>undefined\<close>, which the
  code only tests for truthiness. \<open>production\<close> is
  \<open>process.env.NODE_ENV === 'production'\<close> and \<open>async\<close> is \<open>config.async\<close>.
\<close>

record 'h state =
  world :: 'h
  production :: bool
  async :: bool
  subs :: "nat \<Rightarrow> nat list"
  watchers :: "nat \<Rightarrow> 'h watcher"
  vms :: "nat \<Rightarrow> component"
  target :: "nat option"
  targetStack :: "nat option list"
  queue :: "nat list"
  flushing :: bool
  cursor :: nat
  waiting :: bool
  trace :: "event list"

definition log :: "event \<Rightarrow> 'h state \<Rightarrow> 'h state" where
  "log e st = st\<lparr>trace := trace st @ [e]\<rparr>"

definition upd_watcher :: "nat \<Rightarrow> ('h watcher \<Rightarrow> 'h watcher) \<Rightarrow> 'h state \<Rightarrow> 'h state" where
  "upd_watcher w f st = st\<lparr>watchers := (watchers st)(w := f (watchers st w))\<rparr>"

section \<open>Helpers that are not in the sources\<close>

text \<open>
  Modelled from the spec: \<open>remove(arr, item)\<close> of shared/util is imported by dep.js and
  watcher.js and is not among the sources. The spec has \<open>removeSub\<close> and \<open>teardown\<close>
  "unsubscribe" a Watcher from a Dep; the item is deleted from the array once, at its
  first position, and an array without the item is left as it is.
\<close>

definition remove :: "nat list \<Rightarrow> nat \<Rightarrow> nat list" where
  "remove arr item = remove1 item arr"

text \<open>
  Modelled from the spec: \<open>handleError(err, vm, info)\<close> of util/error is not among the
  sources. The spec's error channel accepts \<open>(error, contextLabel)\<close>, reports, and
  returns to its caller.
\<close>

definition handleError :: "err \<Rightarrow> nat \<Rightarrow> string \<Rightarrow> 'h state \<Rightarrow> 'h state" where
  "handleError e v info st = log (Reported e v info) st"

text \<open>
  Modelled from the spec: \<open>warn(msg)\<close> of util/debug is not among the sources; a usage
  warning is reported and is not fatal.
\<close>

definition warn :: "string \<Rightarrow> 'h state \<Rightarrow> 'h state" where
  "warn msg st = log (Warned msg) st"

text \<open>
  Modelled from the spec: \<open>queueWatcher\<close> of observer/scheduler is not among the sources.
  The spec: no-op if the id is already pending. If no flush is in progress, append and
  schedule one asynchronous flush for the next tick. If a flush is in progress and the id
  is still ahead of the flush cursor, insert at the sorted position in the remaining
  unflushed segment; if the cursor has already passed the id, append it anyway. Nothing
  is evaluated by the call itself.
\<close>

definition queueWatcher :: "nat \<Rightarrow> 'h state \<Rightarrow> 'h state" where
  "queueWatcher w st =
     (if w \<in> set (queue st) then st
      else if \<not> flushing st then st\<lparr>queue := queue st @ [w], waiting := True\<rparr>
      else if cursor st < length (queue st) \<and> queue st ! cursor st < w
        then st\<lparr>queue := take (Suc (cursor st)) (queue st)
                          @ insort w (drop (Suc (cursor st)) (queue st))\<rparr>
      else st\<lparr>queue := queue st @ [w]\<rparr>)"

section \<open>dep.js\<close>

definition addSub :: "nat \<Rightarrow> nat \<Rightarrow> 'h state \<Rightarrow> 'h state" where
  "addSub d w st = st\<lparr>subs := (subs st)(d := subs st d @ [w])\<rparr>"

definition removeSub :: "nat \<Rightarrow> nat \<Rightarrow> 'h state \<Rightarrow> 'h state" where
  "removeSub d w st = st\<lparr>subs := (subs st)(d := remove (subs st d) w)\<rparr>"

definition pushTarget :: "nat option \<Rightarrow> 'h state \<Rightarrow> 'h state" where
  "pushTarget t st = st\<lparr>targetStack := targetStack st @ [t], target := t\<rparr>"

text \<open>
  \<open>targetStack.pop()\<close> on an empty array does nothing, and
  \<open>targetStack[targetStack.length - 1]\<close> is then \<open>undefined\<close>.
\<close>

definition popTarget :: "'h state \<Rightarrow> 'h state" where
  "popTarget st =
     (let s = butlast (targetStack st)
      in st\<lparr>targetStack := s, target := (if s = [] then None else last s)\<rparr>)"

section \<open>watcher.js\<close>

definition addDep :: "nat \<Rightarrow> nat \<Rightarrow> 'h state \<Rightarrow> 'h state" where
  "addDep w d st =
     (if d \<notin> newDepIds (watchers st w) then
        (let st1 = upd_watcher w
                     (\<lambda>W. W\<lparr>newDepIds := insert d (newDepIds W), newDeps := newDeps W @ [d]\<rparr>) st
         in if d \<notin> depIds (watchers st1 w) then addSub d w st1 else st1)
      else st)"

text \<open>\<open>Dep.depend\<close>: \<open>if (Dep.target) Dep.target.addDep(this)\<close>.\<close>

definition depend :: "nat \<Rightarrow> 'h state \<Rightarrow> 'h state" where
  "depend d st =
     (let st1 = log (DependReached d (target st)) st
      in case target st1 of Some w \<Rightarrow> addDep w d st1 | None \<Rightarrow> st1)"

text \<open>
  Modelled from the spec: \<open>traverse(value)\<close> of observer/traverse is not among the
  sources. The spec: it deep-traverses the produced value to force recursive dependency
  registration; the Deps it reaches are those given with the returned value.
\<close>

definition traverse :: "nat list \<Rightarrow> 'h state \<Rightarrow> 'h state" where
  "traverse ds st = fold depend ds st"

text \<open>
  \<open>cleanupDeps\<close>: the \<open>while (i--)\<close> loop visits \<open>deps\<close> from its last element to its
  first; then the two id sets and the two arrays are swapped and the new ones emptied.
\<close>

definition cleanupDeps :: "nat \<Rightarrow> 'h state \<Rightarrow> 'h state" where
  "cleanupDeps w st =
     (let st1 = fold (\<lambda>d s. if d \<notin> newDepIds (watchers s w) then removeSub d w s else s)
                     (rev (deps (watchers st w))) st
      in upd_watcher w
           (\<lambda>W. W\<lparr>depIds := newDepIds W, newDepIds := {}, deps := newDeps W, newDeps := []\<rparr>) st1)"

definition getter_label :: "'h watcher \<Rightarrow> string" where
  "getter_label W = ''getter for watcher \"'' @ expression W @ ''\"''"

definition callback_label :: "'h watcher \<Rightarrow> string" where
  "callback_label W = ''callback for watcher \"'' @ expression W @ ''\"''"

text \<open>
  \<open>Watcher.get\<close>, given what the evaluation function does in this call. The
  \<open>try\<close>/\<open>catch\<close>/\<open>finally\<close>: an exception of a user Watcher is reported and \<open>value\<close> stays
  \<open>undefined\<close>; any other exception is thrown again, after the \<open>finally\<close> block has run.
\<close>

fun exec_acts :: "act list \<Rightarrow> 'h state \<Rightarrow> err option \<times> 'h state"
  and get_ev :: "nat \<Rightarrow> evaluation \<Rightarrow> 'h state \<Rightarrow> (err + jsval) \<times> 'h state" where
  "exec_acts [] st = (None, st)"
| "exec_acts (Depend d # as) st = exec_acts as (depend d st)"
| "exec_acts (Nested w e # as) st =
     (case get_ev w e st of
        (Inl x, st') \<Rightarrow> (Some x, st')
      | (Inr v, st') \<Rightarrow> exec_acts as st')"
| "get_ev w (Evaluation as out) st =
     (let st1 = log (GetterCalled w) (pushTarget (Some w) st) in
      case exec_acts as st1 of (thrown, st2) \<Rightarrow>
      let res = (case thrown of Some x \<Rightarrow> Throws x | None \<Rightarrow> out);
          W = watchers st2 w;
          st3 = (case res of
                   Throws x \<Rightarrow> if user W then handleError x (vm W) (getter_label W) st2 else st2
                 | Returns v ds \<Rightarrow> st2);
          st4 = (case res of
                   Returns v ds \<Rightarrow> if deep W then traverse ds st3 else st3
                 | Throws x \<Rightarrow> st3);
          st5 = cleanupDeps w (popTarget st4)
      in (case res of
            Returns v ds \<Rightarrow> (Inr v, st5)
          | Throws x \<Rightarrow> if user W then (Inr Undefined, st5) else (Inl x, st5)))"

definition get :: "nat \<Rightarrow> 'h state \<Rightarrow> (err + jsval) \<times> 'h state" where
  "get w st = get_ev w (getter (watchers st w) (world st)) st"

text \<open>
  \<open>Watcher.run\<close>. The callback is described by whether it throws, given the new and the
  old value; its call is logged.
\<close>

definition run :: "nat \<Rightarrow> 'h state \<Rightarrow> err option \<times> 'h state" where
  "run w st =
     (if active (watchers st w) then
        (case get w st of
           (Inl x, st1) \<Rightarrow> (Some x, st1)
         | (Inr v, st1) \<Rightarrow>
             let W = watchers st1 w in
             if \<not> strict_eq v (wvalue W) \<or> isObject v \<or> deep W then
               (let oldValue = wvalue W;
                    st2 = upd_watcher w (\<lambda>W. W\<lparr>wvalue := v\<rparr>) st1;
                    st3 = log (CallbackCalled w v oldValue) st2
                in case cb W v oldValue of
                     None \<Rightarrow> (None, st3)
                   | Some x \<Rightarrow>
                       if user W then (None, handleError x (vm W) (callback_label W) st3)
                       else (Some x, st3))
             else (None, st1))
      else (None, st))"

definition update :: "nat \<Rightarrow> 'h state \<Rightarrow> err option \<times> 'h state" where
  "update w st =
     (let st0 = log (Updated w) st in
      if lazy (watchers st0 w) then (None, upd_watcher w (\<lambda>W. W\<lparr>dirty := True\<rparr>) st0)
      else if sync (watchers st0 w) then run w st0
      else (None, queueWatcher w st0))"

text \<open>
  \<open>Dep.notify\<close>: the \<open>for\<close> loop over the copy; an exception of an \<open>update\<close> leaves the loop.
\<close>

fun update_all :: "nat list \<Rightarrow> 'h state \<Rightarrow> err option \<times> 'h state" where
  "update_all [] st = (None, st)"
| "update_all (w # ws) st =
     (case update w st of
        (Some x, st') \<Rightarrow> (Some x, st')
      | (None, st') \<Rightarrow> update_all ws st')"

definition notify :: "nat \<Rightarrow> 'h state \<Rightarrow> err option \<times> 'h state" where
  "notify d st =
     (let st0 = log (Notified d) st;
          copy = subs st0 d;
          ordered = (if \<not> production st0 \<and> \<not> async st0 then sort copy else copy)
      in update_all ordered st0)"

definition teardown :: "nat \<Rightarrow> 'h state \<Rightarrow> 'h state" where
  "teardown w st =
     (if active (watchers st w) then
        (let v = vm (watchers st w);
             st1 = (if \<not> vm_isBeingDestroyed (vms st v)
                    then st\<lparr>vms := (vms st)(v := (vms st v)\<lparr>vm_watchers := remove (vm_watchers (vms st v)) w\<rparr>)\<rparr>
                    else st);
             st2 = fold (\<lambda>d. removeSub d w) (rev (deps (watchers st1 w))) st1
         in upd_watcher w (\<lambda>W. W\<lparr>active := False\<rparr>) st2)
      else st)"

section \<open>Objects, observers and reactive properties (observer/index.js)\<close>

text \<open>
  The heap of objects. An object is what the observer code asks of it: whether it is an
  array, a plain object, a VNode or something else; \<open>_isVue\<close>; whether it is extensible;
  its \<open>__ob__\<close> (present when it is an own property holding an Observer); its own
  properties in creation order; the keys and values it inherits through its prototype
  chain; and, for an array, its elements. The key \<open>__ob__\<close> is not among the keys of the
  model, and \<open>defineReactive\<close> is not followed on the index of an array, which the observer
  code never passes to it.
\<close>

datatype okind = PlainObject | Array | VNode | Other

record observer =
  ob_dep :: nat
  vmCount :: nat

text \<open>
  Accessor functions. A getter or setter that the user wrote is described by what it does
  when called: a getter by the value it returns, a setter by the value the getter returns
  after it was called with a new value. \<open>InnerGetter p\<close> and \<open>InnerSetter p\<close> are the
  accessor pair that an earlier \<open>defineReactive\<close> installed (its closure is \<open>p\<close>). A call
  of a getter is taken to have no effect besides its value: what \<open>reactiveGetter\<close> does for
  the Watcher being evaluated, its calls of \<open>depend\<close>, is a step of that Watcher's evaluation
  function (\<open>Depend\<close>), and is left out where the observer code itself reads a property.
\<close>

datatype getter_fn = NoGetter | UserGetter jsval | InnerGetter nat

datatype setter_fn = NoSetter | UserSetter "jsval \<Rightarrow> jsval" | InnerSetter nat

datatype slot = Data jsval | Accessor getter_fn setter_fn | Reactive nat

record descriptor =
  configurable :: bool
  enumerable :: bool
  writable :: bool
  slot :: slot

record obj =
  kind :: okind
  isVue :: bool
  extensible :: bool
  ob :: "observer option"
  props :: "(key \<times> descriptor) list"
  inherited :: "(key \<times> jsval) list"
  elems :: "jsval list"

text \<open>
  The closure of one \<open>defineReactive\<close> call: \<open>dep\<close>, \<open>val\<close>, \<open>getter\<close>, \<open>setter\<close>, \<open>childOb\<close>
  (the address of the observed value), \<open>customSetter\<close> (whether one was passed) and
  \<open>shallow\<close>, with the object and key it was called for.
\<close>

record closure =
  c_obj :: nat
  c_key :: key
  c_dep :: nat
  c_val :: jsval
  c_getter :: getter_fn
  c_setter :: setter_fn
  c_childOb :: "nat option"
  c_customSetter :: bool
  c_shallow :: bool

text \<open>
  \<open>dep_uid\<close> is the \<open>uid\<close> counter of dep.js; \<open>serverRendering\<close> is what
  \<open>isServerRendering()\<close> returns.
\<close>

record heap =
  objs :: "obj list"
  closures :: "nat \<Rightarrow> closure"
  closure_uid :: nat
  dep_uid :: nat
  shouldObserve :: bool
  serverRendering :: bool

definition upd_world :: "('h \<Rightarrow> 'h) \<Rightarrow> 'h state \<Rightarrow> 'h state" where
  "upd_world f st = st\<lparr>world := f (world st)\<rparr>"

definition upd_obj :: "nat \<Rightarrow> (obj \<Rightarrow> obj) \<Rightarrow> heap \<Rightarrow> heap" where
  "upd_obj a f h = h\<lparr>objs := (objs h)[a := f (objs h ! a)]\<rparr>"

definition upd_closure :: "nat \<Rightarrow> (closure \<Rightarrow> closure) \<Rightarrow> heap \<Rightarrow> heap" where
  "upd_closure p f h = h\<lparr>closures := (closures h)(p := f (closures h p))\<rparr>"

text \<open>\<open>new Dep()\<close>: \<open>this.id = uid++\<close>, \<open>this.subs = []\<close>.\<close>

definition new_Dep :: "heap state \<Rightarrow> nat \<times> heap state" where
  "new_Dep st =
     (let d = dep_uid (world st)
      in (d, st\<lparr>subs := (subs st)(d := []), world := (world st)\<lparr>dep_uid := Suc d\<rparr>\<rparr>))"

text \<open>
  The value that the accessor of closure \<open>p\<close> yields: \<open>getter ? getter.call(obj) : val\<close>.
  A wrapped accessor pair was installed earlier than the closure that wraps it.
\<close>

function reactive_value :: "nat \<Rightarrow> heap \<Rightarrow> jsval" where
  "reactive_value p h =
     (case c_getter (closures h p) of
        NoGetter \<Rightarrow> c_val (closures h p)
      | UserGetter v \<Rightarrow> v
      | InnerGetter q \<Rightarrow> if q < p then reactive_value q h else Undefined)"
  by pat_completeness auto
termination
  by (relation "measure (\<lambda>(p, h). p)") auto

declare reactive_value.simps [simp del]

text \<open>The own property descriptor of a key; an array owns its indices below its length.\<close>

definition own_desc :: "obj \<Rightarrow> key \<Rightarrow> descriptor option" where
  "own_desc o' k =
     (case k of
        Idx i \<Rightarrow>
          if kind o' = Array \<and> i < length (elems o')
          then Some \<lparr>configurable = True, enumerable = True, writable = True,
                     slot = Data (elems o' ! i)\<rparr>
          else map_of (props o') k
      | Key s \<Rightarrow> map_of (props o') k)"

text \<open>\<open>obj[key]\<close>, read.\<close>

definition get_prop :: "heap \<Rightarrow> nat \<Rightarrow> key \<Rightarrow> jsval" where
  "get_prop h a k =
     (case own_desc (objs h ! a) k of
        Some desc \<Rightarrow>
          (case slot desc of
             Data v \<Rightarrow> v
           | Accessor g s \<Rightarrow> (case g of UserGetter v \<Rightarrow> v | _ \<Rightarrow> Undefined)
           | Reactive p \<Rightarrow> reactive_value p h)
      | None \<Rightarrow> (case map_of (inherited (objs h ! a)) k of Some v \<Rightarrow> v | None \<Rightarrow> Undefined))"

text \<open>\<open>Object.keys(obj)\<close>: the enumerable own keys.\<close>

definition object_keys :: "obj \<Rightarrow> key list" where
  "object_keys o' = map fst (filter (\<lambda>(k, desc). enumerable desc) (props o'))"

text \<open>
  The second branch of \<open>observe\<close>: \<open>shouldObserve && !isServerRendering() &&
  (Array.isArray(value) || isPlainObject(value)) && Object.isExtensible(value) &&
  !value._isVue\<close>.
\<close>

definition observable :: "heap \<Rightarrow> nat \<Rightarrow> bool" where
  "observable h a =
     (shouldObserve h \<and> \<not> serverRendering h
      \<and> (kind (objs h ! a) = Array \<or> kind (objs h ! a) = PlainObject)
      \<and> extensible (objs h ! a) \<and> \<not> isVue (objs h ! a))"

text \<open>\<open>if (asRootData && ob) ob.vmCount++\<close>.\<close>

definition count_root :: "bool \<Rightarrow> nat \<Rightarrow> heap state \<Rightarrow> heap state" where
  "count_root asRootData a st =
     (if asRootData
      then upd_world (upd_obj a (\<lambda>o'. o'\<lparr>ob := map_option (\<lambda>b. b\<lparr>vmCount := Suc (vmCount b)\<rparr>) (ob o')\<rparr>)) st
      else st)"

text \<open>
  The first half of the \<open>Observer\<close> constructor: \<open>this.dep = new Dep()\<close>,
  \<open>this.vmCount = 0\<close>, \<open>def(value, '__ob__', this)\<close>. An augmented array has the
  intercepting methods from then on.
\<close>

definition attach_Observer :: "nat \<Rightarrow> heap state \<Rightarrow> heap state" where
  "attach_Observer a st =
     (case new_Dep st of (d, st1) \<Rightarrow>
        upd_world (upd_obj a (\<lambda>o'. o'\<lparr>ob := Some \<lparr>ob_dep = d, vmCount = 0\<rparr>\<rparr>)) st1)"

text \<open>
  \<open>defineReactive\<close> up to \<open>observe(val)\<close>: the pre-existing getter and setter, and \<open>val\<close>,
  which is read from the object when only two arguments were passed (\<open>valarg = None\<close>) and
  there is no getter or there is a setter.
\<close>

definition pre_getter :: "descriptor option \<Rightarrow> getter_fn" where
  "pre_getter property =
     (case property of
        Some desc \<Rightarrow> (case slot desc of Data v \<Rightarrow> NoGetter
                       | Accessor g s \<Rightarrow> g | Reactive q \<Rightarrow> InnerGetter q)
      | None \<Rightarrow> NoGetter)"

definition pre_setter :: "descriptor option \<Rightarrow> setter_fn" where
  "pre_setter property =
     (case property of
        Some desc \<Rightarrow> (case slot desc of Data v \<Rightarrow> NoSetter
                       | Accessor g s \<Rightarrow> s | Reactive q \<Rightarrow> InnerSetter q)
      | None \<Rightarrow> NoSetter)"

definition not_configurable :: "heap \<Rightarrow> nat \<Rightarrow> key \<Rightarrow> bool" where
  "not_configurable h a k =
     (case own_desc (objs h ! a) k of Some desc \<Rightarrow> \<not> configurable desc | None \<Rightarrow> False)"

definition first_val :: "heap \<Rightarrow> nat \<Rightarrow> key \<Rightarrow> jsval option \<Rightarrow> jsval" where
  "first_val h a k valarg =
     (let property = own_desc (objs h ! a) k in
      case valarg of
        Some v \<Rightarrow> v
      | None \<Rightarrow> if pre_getter property = NoGetter \<or> pre_setter property \<noteq> NoSetter
                then get_prop h a k else Undefined)"

text \<open>
  The end of \<open>defineReactive\<close>: \<open>Object.defineProperty(obj, key, {enumerable: true,
  configurable: true, get, set})\<close> with the new closure. The getter, the setter and \<open>val\<close>
  were taken in the state \<open>st1\<close> before \<open>observe(val)\<close>. \<open>Object.defineProperty\<close> is taken to
  succeed.
\<close>

definition install :: "nat \<Rightarrow> key \<Rightarrow> nat \<Rightarrow> jsval option \<Rightarrow> bool \<Rightarrow> bool \<Rightarrow> heap state
    \<Rightarrow> nat option \<Rightarrow> heap state \<Rightarrow> heap state" where
  "install a k d valarg customSetter shallow st1 childOb st2 =
     (let property = own_desc (objs (world st1) ! a) k;
          p = closure_uid (world st2);
          c = \<lparr>c_obj = a, c_key = k, c_dep = d, c_val = first_val (world st1) a k valarg,
               c_getter = pre_getter property, c_setter = pre_setter property,
               c_childOb = childOb, c_customSetter = customSetter, c_shallow = shallow\<rparr>
      in upd_world
           (\<lambda>h. (upd_obj a
                    (\<lambda>o'. o'\<lparr>props := AList.update k
                        \<lparr>configurable = True, enumerable = True, writable = True,
                         slot = Reactive p\<rparr> (props o')\<rparr>) h)
                  \<lparr>closures := (closures h)(p := c), closure_uid := Suc p\<rparr>) st2)"

text \<open>
  \<open>observe\<close>, the \<open>Observer\<close> constructor with \<open>walk\<close> and \<open>observeArray\<close>, and
  \<open>defineReactive\<close> call each other. Each is written first with the \<open>observe\<close> it calls
  as a parameter \<open>obs\<close>; \<open>observe_n\<close> then closes the recursion, its first argument
  bounding the depth of nested \<open>observe\<close> calls, with \<open>None\<close> for a bound that is too small.
  \<open>observe\<close> returns the address of the observed object (its Observer) or nothing.
  \<open>defineReactive\<close> takes \<open>val\<close> as \<open>Some v\<close> when it was passed (\<open>arguments.length\<close> is not 2).
\<close>

type_synonym observe_fn = "jsval \<Rightarrow> bool \<Rightarrow> heap state \<Rightarrow> (nat option \<times> heap state) option"

definition defineReactive_with ::
    "observe_fn \<Rightarrow> nat \<Rightarrow> key \<Rightarrow> jsval option \<Rightarrow> bool \<Rightarrow> bool \<Rightarrow> heap state \<Rightarrow> heap state option"
  where
  "defineReactive_with obs a k valarg customSetter shallow st =
     (case new_Dep st of (d, st1) \<Rightarrow>
        if not_configurable (world st1) a k then Some st1
        else if shallow then Some (install a k d valarg customSetter shallow st1 None st1)
        else (case obs (first_val (world st1) a k valarg) False st1 of
                None \<Rightarrow> None
              | Some (childOb, st2) \<Rightarrow>
                  Some (install a k d valarg customSetter shallow st1 childOb st2)))"

fun walk_with :: "observe_fn \<Rightarrow> nat \<Rightarrow> key list \<Rightarrow> heap state \<Rightarrow> heap state option" where
  "walk_with obs a [] st = Some st"
| "walk_with obs a (k # ks) st =
     (case defineReactive_with obs a k None False False st of
        None \<Rightarrow> None
      | Some st1 \<Rightarrow> walk_with obs a ks st1)"

fun observeArray_with :: "observe_fn \<Rightarrow> jsval list \<Rightarrow> heap state \<Rightarrow> heap state option" where
  "observeArray_with obs [] st = Some st"
| "observeArray_with obs (v # vs) st =
     (case obs v False st of
        None \<Rightarrow> None
      | Some (r, st1) \<Rightarrow> observeArray_with obs vs st1)"

definition Observer_with :: "observe_fn \<Rightarrow> nat \<Rightarrow> heap state \<Rightarrow> heap state option" where
  "Observer_with obs a st =
     (let st2 = attach_Observer a st
      in if kind (objs (world st2) ! a) = Array
         then observeArray_with obs (elems (objs (world st2) ! a)) st2
         else walk_with obs a (object_keys (objs (world st2) ! a)) st2)"

definition observe_with :: "observe_fn \<Rightarrow> observe_fn" where
  "observe_with obs v asRootData st =
     (case v of
        Ref a \<Rightarrow>
          if \<not> a < length (objs (world st)) \<or> kind (objs (world st) ! a) = VNode
          then Some (None, st)
          else if ob (objs (world st) ! a) \<noteq> None
            then Some (Some a, count_root asRootData a st)
          else if observable (world st) a
            then (case Observer_with obs a st of
                    None \<Rightarrow> None
                  | Some st1 \<Rightarrow> Some (Some a, count_root asRootData a st1))
          else Some (None, st)
      | _ \<Rightarrow> Some (None, st))"

primrec observe_n :: "nat \<Rightarrow> observe_fn" where
  "observe_n 0 = (\<lambda>v asRootData st. None)"
| "observe_n (Suc n) = observe_with (observe_n n)"

text \<open>
  As many nested \<open>observe\<close> calls as there are objects are never needed: every nested call
  that goes on to nest further has attached an Observer to one more object.
\<close>

definition fuel :: "heap state \<Rightarrow> nat" where
  "fuel st = Suc (length (objs (world st)))"

definition observe :: "jsval \<Rightarrow> bool \<Rightarrow> heap state \<Rightarrow> nat option \<times> heap state" where
  "observe v asRootData st =
     (case observe_n (fuel st) v asRootData st of Some r \<Rightarrow> r | None \<Rightarrow> (None, st))"

definition defineReactive ::
    "nat \<Rightarrow> key \<Rightarrow> jsval option \<Rightarrow> bool \<Rightarrow> bool \<Rightarrow> heap state \<Rightarrow> heap state" where
  "defineReactive a k valarg customSetter shallow st =
     (case defineReactive_with (observe_n (fuel st)) a k valarg customSetter shallow st of
        Some st1 \<Rightarrow> st1 | None \<Rightarrow> st)"

text \<open>
  \<open>reactiveSetter\<close> of the closure \<open>p\<close>. \<open>newVal !== newVal && value !== value\<close> is written
  with \<open>strict_eq\<close>. A wrapped setter is the \<open>reactiveSetter\<close> of an earlier closure.
\<close>

function reactiveSetter :: "nat \<Rightarrow> jsval \<Rightarrow> heap state \<Rightarrow> err option \<times> heap state" where
  "reactiveSetter p newVal st =
     (let c = closures (world st) p;
          value = reactive_value p (world st)
      in if strict_eq newVal value \<or> (\<not> strict_eq newVal newVal \<and> \<not> strict_eq value value)
         then (None, st)
         else
           let st1 = (if \<not> production st \<and> c_customSetter c
                      then log (CustomSetterCalled (c_obj c) (c_key c)) st else st)
           in if c_getter c \<noteq> NoGetter \<and> c_setter c = NoSetter then (None, st1)
              else
                (case (case c_setter c of
                         NoSetter \<Rightarrow>
                           (None, upd_world (upd_closure p (\<lambda>c. c\<lparr>c_val := newVal\<rparr>)) st1)
                       | UserSetter f \<Rightarrow>
                           (None, upd_world (upd_closure p
                                    (\<lambda>c. c\<lparr>c_getter := (case c_getter c of
                                                           UserGetter v \<Rightarrow> UserGetter (f newVal)
                                                         | g \<Rightarrow> g)\<rparr>))
                                    (log (SetterCalled (c_obj c) (c_key c) newVal) st1))
                       | InnerSetter q \<Rightarrow>
                           if q < p then reactiveSetter q newVal st1 else (None, st1)) of
                   (Some x, st2) \<Rightarrow> (Some x, st2)
                 | (None, st2) \<Rightarrow>
                     (case (if c_shallow c then (None, st2) else observe newVal False st2) of
                        (childOb, st3) \<Rightarrow>
                          notify (c_dep c)
                            (upd_world (upd_closure p (\<lambda>c. c\<lparr>c_childOb := childOb\<rparr>)) st3))))"
  by pat_completeness auto
termination
  by (relation "measure (\<lambda>(p, v, st). p)") auto

declare reactiveSetter.simps [simp del]

text \<open>
  \<open>target[key] = val\<close> in a module (strict mode) for the object at \<open>a\<close>. An own data
  property is written when it is writable; an own accessor has its setter called; a key
  that the object does not own becomes a new data property when the object is
  extensible. Otherwise the assignment throws a TypeError. Setters and read-only
  properties on the prototype chain are left out.
\<close>

definition assign :: "nat \<Rightarrow> key \<Rightarrow> jsval \<Rightarrow> heap state \<Rightarrow> err option \<times> heap state" where
  "assign a k v st =
     (let o' = objs (world st) ! a in
      case own_desc o' k of
        Some desc \<Rightarrow>
          (case slot desc of
             Data old \<Rightarrow>
               if \<not> writable desc then (Some ''TypeError'', st)
               else (case k of
                       Idx i \<Rightarrow>
                         if kind o' = Array \<and> i < length (elems o')
                         then (None, upd_world (upd_obj a (\<lambda>o'. o'\<lparr>elems := (elems o')[i := v]\<rparr>)) st)
                         else (None, upd_world (upd_obj a (\<lambda>o'. o'\<lparr>props :=
                                 AList.update k (desc\<lparr>slot := Data v\<rparr>) (props o')\<rparr>)) st)
                     | Key n \<Rightarrow>
                         (None, upd_world (upd_obj a (\<lambda>o'. o'\<lparr>props :=
                                 AList.update k (desc\<lparr>slot := Data v\<rparr>) (props o')\<rparr>)) st))
           | Accessor g s \<Rightarrow>
               (case s of
                  UserSetter f \<Rightarrow>
                    (None, upd_world (upd_obj a (\<lambda>o'. o'\<lparr>props :=
                             AList.update k
                               (desc\<lparr>slot := Accessor (case g of UserGetter w \<Rightarrow> UserGetter (f v)
                                                            | g' \<Rightarrow> g') s\<rparr>)
                               (props o')\<rparr>))
                            (log (SetterCalled a k v) st))
                | _ \<Rightarrow> (Some ''TypeError'', st))
           | Reactive p \<Rightarrow> reactiveSetter p v st)
      | None \<Rightarrow>
          if \<not> extensible o' then (Some ''TypeError'', st)
          else (case k of
                  Idx i \<Rightarrow>
                    if kind o' = Array
                    then (None, upd_world (upd_obj a (\<lambda>o'. o'\<lparr>elems :=
                            elems o' @ replicate (i - length (elems o')) Undefined @ [v]\<rparr>)) st)
                    else (None, upd_world (upd_obj a (\<lambda>o'. o'\<lparr>props := AList.update k
                            \<lparr>configurable = True, enumerable = True, writable = True,
                             slot = Data v\<rparr> (props o')\<rparr>)) st)
                | Key n \<Rightarrow>
                    (None, upd_world (upd_obj a (\<lambda>o'. o'\<lparr>props := AList.update k
                            \<lparr>configurable = True, enumerable = True, writable = True,
                             slot = Data v\<rparr> (props o')\<rparr>)) st)))"

text \<open>
  \<open>target.length = Math.max(target.length, key); target.splice(key, 1, val)\<close> on the
  elements of an array: the element at \<open>key\<close> is replaced, or the array is lengthened to
  \<open>key\<close> and \<open>val\<close> added at its end.
\<close>

definition splice1 :: "nat \<Rightarrow> jsval \<Rightarrow> jsval list \<Rightarrow> jsval list" where
  "splice1 i v xs =
     (if i < length xs then xs[i := v] else xs @ replicate (i - length xs) Undefined @ [v])"

text \<open>
  Modelled from the spec: the intercepting \<open>splice\<close> of observer/array is not among the
  sources. The spec: list-mutating operations are replaced by variants that perform the
  effect, then notify the structural Dep and wrap any newly introduced element. An array
  has them once an Observer was attached to it. On an array that is not extensible the
  length is set, and the \<open>splice\<close> that would add an element throws a TypeError.
\<close>

definition array_set :: "nat \<Rightarrow> nat \<Rightarrow> jsval \<Rightarrow> heap state \<Rightarrow> err option \<times> heap state" where
  "array_set a i v st =
     (let o' = objs (world st) ! a in
      if \<not> extensible o' \<and> \<not> i < length (elems o')
      then (Some ''TypeError'',
            upd_world (upd_obj a (\<lambda>o'. o'\<lparr>elems :=
              elems o' @ replicate (i - length (elems o')) Undefined\<rparr>)) st)
      else
        let st1 = upd_world (upd_obj a (\<lambda>o'. o'\<lparr>elems := splice1 i v (elems o')\<rparr>)) st
        in case ob o' of
             None \<Rightarrow> (None, st1)
           | Some b \<Rightarrow>
               (case notify (ob_dep b) st1 of
                  (Some x, st2) \<Rightarrow> (Some x, st2)
                | (None, st2) \<Rightarrow> (None, snd (observe v False st2))))"

text \<open>
  Modelled from the spec: \<open>isUndef\<close> and \<open>isPrimitive\<close> are imported from util, which is
  not among the sources. They are read off the warning that \<open>set\<close> issues when one of them
  holds: "undefined, null, or primitive value".
\<close>

fun isUndef :: "jsval \<Rightarrow> bool" where
  "isUndef Undefined = True"
| "isUndef Null = True"
| "isUndef v = False"

fun isPrimitive :: "jsval \<Rightarrow> bool" where
  "isPrimitive (Str s) = True"
| "isPrimitive (Num n) = True"
| "isPrimitive NaN = True"
| "isPrimitive (Bool b) = True"
| "isPrimitive v = False"

text \<open>\<open>key in target\<close> and \<open>key in Object.prototype\<close>.\<close>

definition has_key :: "obj \<Rightarrow> key \<Rightarrow> bool" where
  "has_key o' k = (own_desc o' k \<noteq> None \<or> map_of (inherited o') k \<noteq> None)"

definition Object_prototype_keys :: "key list" where
  "Object_prototype_keys =
     map Key [''constructor'', ''__defineGetter__'', ''__defineSetter__'', ''hasOwnProperty'',
              ''__lookupGetter__'', ''__lookupSetter__'', ''isPrototypeOf'',
              ''propertyIsEnumerable'', ''toString'', ''valueOf'', ''__proto__'',
              ''toLocaleString'']"

definition in_Object_prototype :: "key \<Rightarrow> bool" where
  "in_Object_prototype k = (k \<in> set Object_prototype_keys)"

text \<open>The two warnings of \<open>set\<close>; the interpolated target is left out of the first.\<close>

definition cannot_set_msg :: string where
  "cannot_set_msg = ''Cannot set reactive property on undefined, null, or primitive value: ''"

definition avoid_adding_msg :: string where
  "avoid_adding_msg =
     ''Avoid adding reactive properties to a Vue instance or its root $data ''
     @ ''at runtime - declare it upfront in the data option.''"

text \<open>
  \<open>set(target, key, val)\<close>. On a target that is not an object, \<open>key in target\<close> throws a
  TypeError after the warning. The result is the returned value or the exception.
\<close>

definition set_fn :: "jsval \<Rightarrow> key \<Rightarrow> jsval \<Rightarrow> heap state \<Rightarrow> (err + jsval) \<times> heap state" where
  "set_fn tgt k v st =
     (let st1 = (if \<not> production st \<and> (isUndef tgt \<or> isPrimitive tgt)
                 then warn cannot_set_msg st else st)
      in case tgt of
           Ref a \<Rightarrow>
             if \<not> a < length (objs (world st1)) then (Inl ''TypeError'', st1)
             else
               let o' = objs (world st1) ! a in
               if kind o' = Array \<and> (case k of Idx i \<Rightarrow> True | Key n \<Rightarrow> False) then
                 (case array_set a (case k of Idx i \<Rightarrow> i | Key n \<Rightarrow> 0) v st1 of
                    (Some x, st2) \<Rightarrow> (Inl x, st2)
                  | (None, st2) \<Rightarrow> (Inr v, st2))
               else if has_key o' k \<and> \<not> in_Object_prototype k then
                 (case assign a k v st1 of
                    (Some x, st2) \<Rightarrow> (Inl x, st2)
                  | (None, st2) \<Rightarrow> (Inr v, st2))
               else if isVue o' \<or> (case ob o' of Some b \<Rightarrow> vmCount b \<noteq> 0 | None \<Rightarrow> False) then
                 (Inr v, if \<not> production st1 then warn avoid_adding_msg st1 else st1)
               else
                 (case ob o' of
                    None \<Rightarrow>
                      (case assign a k v st1 of
                         (Some x, st2) \<Rightarrow> (Inl x, st2)
                       | (None, st2) \<Rightarrow> (Inr v, st2))
                  | Some b \<Rightarrow>
                      (case notify (ob_dep b) (defineReactive a k (Some v) False False st1) of
                         (Some x, st2) \<Rightarrow> (Inl x, st2)
                       | (None, st2) \<Rightarrow> (Inr v, st2)))
         | _ \<Rightarrow> (Inl ''TypeError'', st1))"

section \<open>Well-formed states\<close>

text \<open>
  \<open>Dep.target\<close> is the top of \<open>targetStack\<close>, as \<open>pushTarget\<close> and \<open>popTarget\<close> leave it
  (and nothing else in the observer code assigns either).
\<close>

definition stack_ok :: "'h state \<Rightarrow> bool" where
  "stack_ok st = (target st = (if targetStack st = [] then None else last (targetStack st)))"

text \<open>A Watcher as its constructor leaves it before the first \<open>get\<close>, with no options.\<close>

definition blank :: "'h watcher" where
  "blank = \<lparr>vm = 0, expression = [], cb = (\<lambda>v old. None), deep = False, user = False,
            lazy = False, sync = False, dirty = False, active = True, deps = [], newDeps = [],
            depIds = {}, newDepIds = {},
            getter = (\<lambda>h. Evaluation [] (Returns Undefined [])), wvalue = Undefined\<rparr>"

text \<open>The state before anything has been evaluated: no subscribers, an empty stack.\<close>

definition fresh :: "'h \<Rightarrow> 'h state" where
  "fresh h = \<lparr>world = h, production = False, async = True, subs = (\<lambda>d. []),
              watchers = (\<lambda>w. blank),
              vms = (\<lambda>v. \<lparr>vm_watchers = [], vm_isBeingDestroyed = False\<rparr>),
              target = None, targetStack = [], queue = [], flushing = False, cursor = 0,
              waiting = False, trace = []\<rparr>"

text \<open>
  The subscription invariant. The id sets are the ids of the arrays beside them; a Watcher
  in a subscriber array has that Dep in \<open>deps\<close> or \<open>newDeps\<close>; no subscriber array
  holds a Watcher twice.
\<close>

definition subs_ok :: "'h state \<Rightarrow> bool" where
  "subs_ok st =
     ((\<forall>w. depIds (watchers st w) = set (deps (watchers st w))
           \<and> newDepIds (watchers st w) = set (newDeps (watchers st w)))
      \<and> (\<forall>d w. w \<in> set (subs st d) \<longrightarrow>
                 d \<in> depIds (watchers st w) \<union> newDepIds (watchers st w))
      \<and> (\<forall>d. distinct (subs st d)))"

abbreviation cleanup_loop :: "nat \<Rightarrow> nat list \<Rightarrow> 'h state \<Rightarrow> 'h state" where
  "cleanup_loop w ds st \<equiv>
     fold (\<lambda>d s. if d \<notin> newDepIds (watchers s w) then removeSub d w s else s) ds st"

abbreviation teardown_loop :: "nat \<Rightarrow> nat list \<Rightarrow> 'h state \<Rightarrow> 'h state" where
  "teardown_loop w ds st \<equiv> fold (\<lambda>d. removeSub d w) ds st"

text \<open>
  A state in which every Dep and every Watcher is as its constructor made it: no
  subscribers, no recorded dependencies.
\<close>

definition initial :: "'h state \<Rightarrow> bool" where
  "initial st =
     ((\<forall>d. subs st d = []) \<and>
      (\<forall>w. deps (watchers st w) = [] \<and> newDeps (watchers st w) = []
           \<and> depIds (watchers st w) = {} \<and> newDepIds (watchers st w) = {}))"

text \<open>
  The states that any sequence of calls of the Dep and Watcher methods leads to, the data
  changing in between; \<open>evaluation\<close> is a \<open>get\<close> whose evaluation function behaves in any
  way at all.
\<close>

inductive reachable :: "'h state \<Rightarrow> bool" where
  start: "initial st \<Longrightarrow> reachable st"
| evaluation: "reachable st \<Longrightarrow> reachable (snd (get_ev w ev st))"
| mutation: "reachable st \<Longrightarrow> reachable (st\<lparr>world := h\<rparr>)"
| get: "reachable st \<Longrightarrow> reachable (snd (get w st))"
| run: "reachable st \<Longrightarrow> reachable (snd (run w st))"
| update: "reachable st \<Longrightarrow> reachable (snd (update w st))"
| notify: "reachable st \<Longrightarrow> reachable (snd (notify d st))"
| teardown: "reachable st \<Longrightarrow> reachable (teardown w st)"
| depend: "reachable st \<Longrightarrow> reachable (depend d st)"
| addDep: "reachable st \<Longrightarrow> reachable (addDep w d st)"
| pushTarget: "reachable st \<Longrightarrow> reachable (pushTarget t st)"
| popTarget: "reachable st \<Longrightarrow> reachable (popTarget st)"

text \<open>Two evaluation functions for examples: they read Dep 0 twice and one other Dep.\<close>

definition ev_a :: evaluation where
  "ev_a = Evaluation [Depend 0, Depend 0, Depend 5] (Returns (Num 1) [])"

definition ev_b :: evaluation where
  "ev_b = Evaluation [Depend 0, Depend 7, Depend 0] (Returns (Num 2) [])"

text \<open>
  What an evaluation may change in a Watcher: only the four dependency fields. And what it
  leaves alone in the state.
\<close>

definition dep_fields_only :: "'h watcher \<Rightarrow> 'h watcher \<Rightarrow> bool" where
  "dep_fields_only W' W =
     (W' = W\<lparr>deps := deps W', newDeps := newDeps W', depIds := depIds W', newDepIds := newDepIds W'\<rparr>)"

definition evolves :: "'h state \<Rightarrow> 'h state \<Rightarrow> bool" where
  "evolves st st' =
     ((\<forall>x. dep_fields_only (watchers st' x) (watchers st x))
      \<and> world st' = world st \<and> production st' = production st \<and> async st' = async st
      \<and> vms st' = vms st \<and> queue st' = queue st \<and> flushing st' = flushing st
      \<and> cursor st' = cursor st \<and> waiting st' = waiting st)"

text \<open>
  The result of \<open>this.getter.call(vm, vm)\<close> inside \<open>get\<close>: what the evaluation function
  returns or throws, and the state it leaves.
\<close>

definition call_getter :: "nat \<Rightarrow> evaluation \<Rightarrow> 'h state \<Rightarrow> outcome \<times> 'h state" where
  "call_getter w ev st =
     (case ev of Evaluation as out \<Rightarrow>
        (case exec_acts as (log (GetterCalled w) (pushTarget (Some w) st)) of
           (Some x, st2) \<Rightarrow> (Throws x, st2)
         | (None, st2) \<Rightarrow> (out, st2)))"

text \<open>The Watchers whose \<open>update\<close> was entered, in the order of the calls.\<close>

definition updates_of :: "event list \<Rightarrow> nat list" where
  "updates_of es = concat (map (\<lambda>e. case e of Updated w \<Rightarrow> [w] | _ \<Rightarrow> []) es)"

text \<open>
  States for examples. \<open>two_subs\<close>: Watcher 2 subscribed to Dep 0 before Watcher 1; both are
  sync and their evaluation functions read nothing. \<open>three_kinds\<close>: a lazy, a sync and a
  default Watcher. \<open>users\<close>: two user-defined Watchers, the second with a throwing callback.
\<close>

definition two_subs :: "bool \<Rightarrow> bool \<Rightarrow> unit state" where
  "two_subs p a =
     (fresh ())\<lparr>production := p, async := a, subs := (\<lambda>d. [])(0 := [2, 1]),
                watchers := (\<lambda>w. blank)
                  (1 := blank\<lparr>sync := True, deps := [0], depIds := {0}\<rparr>,
                   2 := blank\<lparr>sync := True, deps := [0], depIds := {0}\<rparr>)\<rparr>"

definition three_kinds :: "unit state" where
  "three_kinds =
     (fresh ())\<lparr>watchers := (\<lambda>w. blank)
                  (1 := blank\<lparr>lazy := True\<rparr>, 2 := blank\<lparr>sync := True\<rparr>)\<rparr>"

definition throwing :: evaluation where
  "throwing = Evaluation [Depend 0] (Throws ''boom'')"

definition users :: "unit state" where
  "users =
     (fresh ())\<lparr>watchers := (\<lambda>w. blank)
                  (1 := blank\<lparr>user := True, expression := ''a.b''\<rparr>,
                   2 := blank\<lparr>user := True, expression := ''c'', vm := 7,
                              cb := (\<lambda>v old. Some ''boom''),
                              getter := (\<lambda>h. Evaluation [Depend 0] (Returns (Num 1) []))\<rparr>)\<rparr>"


text \<open>
  The Deps whose \<open>depend()\<close> was reached while \<open>Dep.target\<close> was the Watcher \<open>w\<close>, in the
  order of the calls.
\<close>

definition reads_of :: "nat \<Rightarrow> event list \<Rightarrow> nat list" where
  "reads_of w es =
     concat (map (\<lambda>e. case e of DependReached d t \<Rightarrow> (if t = Some w then [d] else []) | _ \<Rightarrow> []) es)"

text \<open>The Watchers whose \<open>get\<close> an evaluation function calls, at any depth.\<close>

fun acts_ws :: "act list \<Rightarrow> nat set" and ev_ws :: "evaluation \<Rightarrow> nat set" where
  "acts_ws [] = {}"
| "acts_ws (Depend d # as) = acts_ws as"
| "acts_ws (Nested w e # as) = insert w (ev_ws e \<union> acts_ws as)"
| "ev_ws (Evaluation as out) = acts_ws as"

text \<open>
  \<open>frame x\<close>: a step that does not concern the Watcher \<open>x\<close>. \<open>tracks w\<close>: a step inside the
  evaluation of \<open>w\<close>, where every Dep reached is recorded in \<open>newDeps\<close>.
\<close>

definition frame :: "nat \<Rightarrow> 'h state \<Rightarrow> 'h state \<Rightarrow> bool" where
  "frame x st st' =
     (watchers st' x = watchers st x
      \<and> reads_of x (trace st') = reads_of x (trace st)
      \<and> (\<forall>d. (x \<in> set (subs st' d)) = (x \<in> set (subs st d))))"

definition tracks :: "nat \<Rightarrow> 'h state \<Rightarrow> 'h state \<Rightarrow> bool" where
  "tracks w st st' =
     (deps (watchers st' w) = deps (watchers st w)
      \<and> (\<exists>rs. reads_of w (trace st') = reads_of w (trace st) @ rs
              \<and> set (newDeps (watchers st' w)) = set (newDeps (watchers st w)) \<union> set rs))"




text \<open>
  The objects that have no Observer yet; \<open>grows\<close>: what \<open>observe\<close> and \<open>defineReactive\<close> may
  do to a state; \<open>total_on m obs\<close>: \<open>obs\<close> returns in every state with at most \<open>m\<close> objects
  without an Observer.
\<close>

definition unobserved :: "heap \<Rightarrow> nat" where
  "unobserved h = card {a. a < length (objs h) \<and> ob (objs h ! a) = None}"

definition grows :: "heap state \<Rightarrow> heap state \<Rightarrow> bool" where
  "grows st st' =
     (length (objs (world st')) = length (objs (world st))
      \<and> unobserved (world st') \<le> unobserved (world st)
      \<and> (\<forall>a<length (objs (world st)). ob (objs (world st) ! a) \<noteq> None
             \<longrightarrow> ob (objs (world st') ! a) \<noteq> None)
      \<and> closure_uid (world st) \<le> closure_uid (world st')
      \<and> (\<forall>p<closure_uid (world st). closures (world st') p = closures (world st) p)
      \<and> trace st' = trace st \<and> watchers st' = watchers st
      \<and> production st' = production st \<and> async st' = async st)"

definition total_on :: "nat \<Rightarrow> observe_fn \<Rightarrow> bool" where
  "total_on m obs =
     (\<forall>v r st. unobserved (world st) \<le> m \<longrightarrow>
        (\<exists>res st'. obs v r st = Some (res, st') \<and> grows st st'))"

text \<open>The Deps whose \<open>notify\<close> was entered, in the order of the calls.\<close>

definition notifies_of :: "event list \<Rightarrow> nat list" where
  "notifies_of es = concat (map (\<lambda>e. case e of Notified d \<Rightarrow> [d] | _ \<Rightarrow> []) es)"

text \<open>
  Inside \<open>reactiveSetter\<close>: \<open>custom_called\<close> is the state after \<open>customSetter()\<close>, which is
  called outside production builds when one was passed; \<open>stored\<close> the state after
  \<open>val = newVal\<close>; \<open>after_observe\<close> the new \<open>childOb\<close> and the state after
  \<open>!shallow && observe(newVal)\<close>.
\<close>

definition stored :: "nat \<Rightarrow> jsval \<Rightarrow> heap state \<Rightarrow> heap state" where
  "stored p newVal st =
     upd_world (upd_closure p (\<lambda>c. c\<lparr>c_val := newVal\<rparr>))
       (if \<not> production st \<and> c_customSetter (closures (world st) p)
        then log (CustomSetterCalled (c_obj (closures (world st) p)) (c_key (closures (world st) p))) st
        else st)"

definition after_observe :: "nat \<Rightarrow> jsval \<Rightarrow> heap state \<Rightarrow> nat option \<times> heap state" where
  "after_observe p newVal st =
     (if c_shallow (closures (world st) p) then (None, stored p newVal st)
      else observe newVal False (stored p newVal st))"

definition custom_called :: "nat \<Rightarrow> heap state \<Rightarrow> heap state" where
  "custom_called p st =
     (if \<not> production st \<and> c_customSetter (closures (world st) p)
      then log (CustomSetterCalled (c_obj (closures (world st) p)) (c_key (closures (world st) p))) st
      else st)"

text \<open>
  States for examples. \<open>heap0\<close>: an object with the reactive data property \<open>a\<close> (closure
  0, value 1) and a second plain object. \<open>shallow_state\<close>: the property was defined
  shallow. \<open>data_state\<close>: a lazy Watcher is subscribed to the property's Dep.
  \<open>nan_state\<close>: the property holds NaN. \<open>getter_only_state\<close>: the property \<open>a\<close> is still
  an accessor with a getter and no setter. \<open>root_state\<close>: the object is the root data of
  one component.
\<close>

definition plain :: obj where
  "plain = \<lparr>kind = PlainObject, isVue = False, extensible = True, ob = None, props = [],
             inherited = [], elems = []\<rparr>"

definition data_closure :: closure where
  "data_closure = \<lparr>c_obj = 0, c_key = Key ''a'', c_dep = 0, c_val = Num 1, c_getter = NoGetter,
                    c_setter = NoSetter, c_childOb = None, c_customSetter = False,
                    c_shallow = False\<rparr>"

definition heap0 :: heap where
  "heap0 = \<lparr>objs = [plain\<lparr>props := [(Key ''a'', \<lparr>configurable = True, enumerable = True,
                                              writable = True, slot = Reactive 0\<rparr>)]\<rparr>,
                     plain],
             closures = (\<lambda>p. data_closure), closure_uid = 1, dep_uid = 1,
             shouldObserve = True, serverRendering = False\<rparr>"

definition shallow_state :: "heap state" where
  "shallow_state = fresh (heap0\<lparr>closures := (\<lambda>p. data_closure\<lparr>c_shallow := True\<rparr>)\<rparr>)"

definition data_state :: "heap state" where
  "data_state =
     (fresh heap0)\<lparr>subs := (\<lambda>d. [])(0 := [1]),
                    watchers := (\<lambda>w. blank)(1 := blank\<lparr>lazy := True, deps := [0], depIds := {0}\<rparr>)\<rparr>"

definition nan_state :: "heap state" where
  "nan_state = upd_world (upd_closure 0 (\<lambda>c. c\<lparr>c_val := NaN\<rparr>)) data_state"

definition getter_only_state :: "heap state" where
  "getter_only_state =
     (fresh (heap0\<lparr>objs := [plain\<lparr>props := [(Key ''a'', \<lparr>configurable = True, enumerable = True,
                                   writable = False, slot = Accessor (UserGetter (Num 5)) NoSetter\<rparr>)]\<rparr>],
                    closure_uid := 0\<rparr>))
       \<lparr>subs := (\<lambda>d. [])(1 := [1]),
         watchers := (\<lambda>w. blank)(1 := blank\<lparr>lazy := True, deps := [1], depIds := {1}\<rparr>)\<rparr>"

definition root_state :: "heap state" where
  "root_state =
     fresh (heap0\<lparr>objs := [plain\<lparr>ob := Some \<lparr>ob_dep = 1, vmCount = 1\<rparr>,
                                   props := [(Key ''a'', \<lparr>configurable = True, enumerable = True,
                                              writable = True, slot = Reactive 0\<rparr>)]\<rparr>],
                    dep_uid := 2\<rparr>)"

section \<open>Watchers under evaluation\<close>

text \<open>
  A Watcher whose \<open>get\<close> has not returned yet has its entry on the target stack.
  \<open>idle_ok\<close>: a Watcher with no entry on the stack has an empty \<open>newDeps\<close>.
  \<open>steady\<close>: that, and \<open>Dep.target\<close> is the top of the stack.
\<close>

definition idle_ok :: "'h state \<Rightarrow> bool" where
  "idle_ok st = (\<forall>w. Some w \<notin> set (targetStack st) \<longrightarrow> newDeps (watchers st w) = [])"






text \<open>The \<open>depend()\<close> calls of a log, each with the \<open>Dep.target\<close> it found.\<close>

definition depends_of :: "event list \<Rightarrow> (nat \<times> nat option) list" where
  "depends_of es = concat (map (\<lambda>e. case e of DependReached d t \<Rightarrow> [(d, t)] | _ \<Rightarrow> []) es)"

text \<open>
  The reads of the evaluation of a Watcher, in order, each with the Watcher whose
  evaluation function (or the traversal of whose value) makes it; and the exception that
  leaves the evaluation, if any. A read inside a nested evaluation belongs to the nested
  Watcher, a read after it to the outer one again. \<open>usr\<close> and \<open>dp\<close> are the \<open>user\<close> and
  \<open>deep\<close> flags of the Watchers: the exception of a user Watcher is caught, the value of
  a deep Watcher is traversed.
\<close>

fun reads_acts :: "(nat \<Rightarrow> bool) \<Rightarrow> (nat \<Rightarrow> bool) \<Rightarrow> nat \<Rightarrow> act list \<Rightarrow> (nat \<times> nat) list \<times> err option"
  and reads_ev :: "(nat \<Rightarrow> bool) \<Rightarrow> (nat \<Rightarrow> bool) \<Rightarrow> nat \<Rightarrow> evaluation \<Rightarrow> (nat \<times> nat) list \<times> err option"
  where
  "reads_acts usr dp w [] = ([], None)"
| "reads_acts usr dp w (Depend d # as) =
     (case reads_acts usr dp w as of (rs, x) \<Rightarrow> ((d, w) # rs, x))"
| "reads_acts usr dp w (Nested w' e # as) =
     (case reads_ev usr dp w' e of
        (rs, Some x) \<Rightarrow> (rs, Some x)
      | (rs, None) \<Rightarrow> (case reads_acts usr dp w as of (rs', x) \<Rightarrow> (rs @ rs', x)))"
| "reads_ev usr dp w (Evaluation as out) =
     (case reads_acts usr dp w as of
        (rs, Some x) \<Rightarrow> (rs, if usr w then None else Some x)
      | (rs, None) \<Rightarrow>
          (case out of
             Returns v ds \<Rightarrow> (rs @ (if dp w then map (\<lambda>d. (d, w)) ds else []), None)
           | Throws x \<Rightarrow> (rs, if usr w then None else Some x)))"

text \<open>
  An evaluation function that reads Dep 0, calls the \<open>get\<close> of Watcher 2, whose
  evaluation function reads Dep 1 and throws, and then reads Dep 3.
\<close>

definition nested :: evaluation where
  "nested =
     Evaluation [Depend 0, Nested 2 (Evaluation [Depend 1] (Throws ''boom'')), Depend 3]
       (Returns (Num 1) [])"

section \<open>Field lemmas\<close>

lemma log_fields [simp]:
  "flushing (log e st) = flushing st" "cursor (log e st) = cursor st" "waiting (log e st) = waiting st"
  "world (log e st) = world st" "production (log e st) = production st" "async (log e st) = async st"
  "subs (log e st) = subs st" "watchers (log e st) = watchers st" "vms (log e st) = vms st"
  "target (log e st) = target st" "targetStack (log e st) = targetStack st"
  "queue (log e st) = queue st" "trace (log e st) = trace st @ [e]"
  by (simp_all add: log_def)

lemma upd_watcher_fields [simp]:
  "flushing (upd_watcher w f st) = flushing st" "cursor (upd_watcher w f st) = cursor st" "waiting (upd_watcher w f st) = waiting st"
  "world (upd_watcher w f st) = world st" "production (upd_watcher w f st) = production st"
  "async (upd_watcher w f st) = async st"
  "subs (upd_watcher w f st) = subs st" "vms (upd_watcher w f st) = vms st"
  "target (upd_watcher w f st) = target st" "targetStack (upd_watcher w f st) = targetStack st"
  "queue (upd_watcher w f st) = queue st" "trace (upd_watcher w f st) = trace st"
  "watchers (upd_watcher w f st) = (watchers st)(w := f (watchers st w))"
  by (simp_all add: upd_watcher_def)

lemma addSub_fields [simp]:
  "flushing (addSub d w st) = flushing st" "cursor (addSub d w st) = cursor st" "waiting (addSub d w st) = waiting st"
  "world (addSub d w st) = world st" "production (addSub d w st) = production st"
  "async (addSub d w st) = async st"
  "watchers (addSub d w st) = watchers st" "vms (addSub d w st) = vms st"
  "target (addSub d w st) = target st" "targetStack (addSub d w st) = targetStack st"
  "queue (addSub d w st) = queue st" "trace (addSub d w st) = trace st"
  "subs (addSub d w st) = (subs st)(d := subs st d @ [w])"
  by (simp_all add: addSub_def)

lemma removeSub_fields [simp]:
  "flushing (removeSub d w st) = flushing st" "cursor (removeSub d w st) = cursor st" "waiting (removeSub d w st) = waiting st"
  "world (removeSub d w st) = world st" "production (removeSub d w st) = production st"
  "async (removeSub d w st) = async st"
  "watchers (removeSub d w st) = watchers st" "vms (removeSub d w st) = vms st"
  "target (removeSub d w st) = target st" "targetStack (removeSub d w st) = targetStack st"
  "queue (removeSub d w st) = queue st" "trace (removeSub d w st) = trace st"
  "subs (removeSub d w st) = (subs st)(d := remove1 w (subs st d))"
  by (simp_all add: removeSub_def remove_def)

section \<open>The target stack\<close>

lemma popTarget_stack [simp]:
  "targetStack (popTarget st) = butlast (targetStack st)"
  "target (popTarget st) =
     (if butlast (targetStack st) = [] then None else last (butlast (targetStack st)))"
  by (simp_all add: popTarget_def Let_def)

lemma pushTarget_stack [simp]:
  "targetStack (pushTarget t st) = targetStack st @ [t]"
  "target (pushTarget t st) = t"
  by (simp_all add: pushTarget_def)

lemma addDep_stack [simp]:
  "target (addDep w d st) = target st" "targetStack (addDep w d st) = targetStack st"
  by (simp_all add: addDep_def Let_def)

lemma depend_stack [simp]:
  "target (depend d st) = target st" "targetStack (depend d st) = targetStack st"
  by (simp_all add: depend_def Let_def split: option.splits)

lemma traverse_stack [simp]:
  "target (traverse ds st) = target st" "targetStack (traverse ds st) = targetStack st"
  unfolding traverse_def by (induction ds arbitrary: st) simp_all

lemma cleanup_loop_stack:
  "target (fold (\<lambda>d s. if d \<notin> newDepIds (watchers s w) then removeSub d w s else s) ds st)
     = target st
   \<and> targetStack (fold (\<lambda>d s. if d \<notin> newDepIds (watchers s w) then removeSub d w s else s) ds st)
     = targetStack st"
  by (induction ds arbitrary: st) simp_all

lemma cleanupDeps_stack [simp]:
  "target (cleanupDeps w st) = target st" "targetStack (cleanupDeps w st) = targetStack st"
  by (simp_all add: cleanupDeps_def Let_def cleanup_loop_stack)

lemma handleError_stack [simp]:
  "target (handleError e v i st) = target st"
  "targetStack (handleError e v i st) = targetStack st"
  by (simp_all add: handleError_def)

lemma stack_ok_cong:
  "target st' = target st \<Longrightarrow> targetStack st' = targetStack st \<Longrightarrow> stack_ok st \<Longrightarrow> stack_ok st'"
  by (simp add: stack_ok_def)

lemma stack_unwinds:
  "stack_ok st \<Longrightarrow> target (snd (exec_acts as st)) = target st
      \<and> targetStack (snd (exec_acts as st)) = targetStack st"
  "stack_ok st \<Longrightarrow> target (snd (get_ev w ev st)) = target st
      \<and> targetStack (snd (get_ev w ev st)) = targetStack st"
proof (induction as st and w ev st rule: exec_acts_get_ev.induct)
  case (1 st)
  then show ?case by simp
next
  case (2 d as st)
  then show ?case by (simp add: stack_ok_def)
next
  case (3 w e as st)
  obtain r st' where g: "get_ev w e st = (r, st')" by (cases "get_ev w e st")
  from 3(1)[OF 3(3)] g have eq: "target st' = target st" "targetStack st' = targetStack st"
    by simp_all
  show ?case
  proof (cases r)
    case (Inl x)
    with g eq show ?thesis by simp
  next
    case (Inr v)
    have "stack_ok st'" using eq 3(3) by (rule stack_ok_cong)
    from 3(2)[OF g[unfolded Inr, symmetric] refl this] g Inr eq show ?thesis by simp
  qed
next
  case (4 w as out st)
  let ?st1 = "log (GetterCalled w) (pushTarget (Some w) st)"
  obtain thrown st2 where e: "exec_acts as ?st1 = (thrown, st2)" by (cases "exec_acts as ?st1")
  have ok1: "stack_ok ?st1" by (simp add: stack_ok_def)
  from 4(1)[OF refl ok1] e have eq2: "target st2 = target ?st1" "targetStack st2 = targetStack ?st1"
    by simp_all
  show ?case using e eq2 4(2)
    by (simp add: Let_def stack_ok_def split: outcome.splits option.splits)
qed

section \<open>The subscription invariant\<close>

lemma subs_ok_simple [simp]:
  "subs_ok (log e st) = subs_ok st" "subs_ok (pushTarget t st) = subs_ok st"
  "subs_ok (popTarget st) = subs_ok st"
  "subs_ok (handleError x v i st) = subs_ok st" "subs_ok (queueWatcher w st) = subs_ok st"
  by (simp_all add: subs_ok_def pushTarget_def popTarget_def handleError_def queueWatcher_def Let_def)

lemma subs_ok_upd_other:
  assumes "\<And>W. deps (f W) = deps W \<and> newDeps (f W) = newDeps W
              \<and> depIds (f W) = depIds W \<and> newDepIds (f W) = newDepIds W"
  shows "subs_ok (upd_watcher w f st) = subs_ok st"
  unfolding subs_ok_def using assms by auto

lemma subs_ok_upd_simple [simp]:
  "subs_ok (upd_watcher w (\<lambda>W. W\<lparr>wvalue := a\<rparr>) st) = subs_ok st"
  "subs_ok (upd_watcher w (\<lambda>W. W\<lparr>dirty := b\<rparr>) st) = subs_ok st"
  "subs_ok (upd_watcher w (\<lambda>W. W\<lparr>active := b\<rparr>) st) = subs_ok st"
  by (simp_all add: subs_ok_upd_other)

lemma addDep_ok: "subs_ok st \<Longrightarrow> subs_ok (addDep w d st)"
  unfolding subs_ok_def addDep_def Let_def
  by (auto split: if_splits) blast+

lemma depend_ok: "subs_ok st \<Longrightarrow> subs_ok (depend d st)"
  by (simp add: depend_def Let_def addDep_ok split: option.splits)

lemma traverse_ok: "subs_ok st \<Longrightarrow> subs_ok (traverse ds st)"
  unfolding traverse_def by (induction ds arbitrary: st) (simp_all add: depend_ok)

lemma cleanup_loop_watchers [simp]: "watchers (cleanup_loop w ds st) = watchers st"
  by (induction ds arbitrary: st) simp_all

lemma cleanup_loop_trace [simp]: "trace (cleanup_loop w ds st) = trace st"
  by (induction ds arbitrary: st) simp_all

lemma cleanup_loop_subs:
  "\<forall>d. distinct (subs st d) \<Longrightarrow>
   subs (cleanup_loop w ds st) d =
     (if d \<in> set ds \<and> d \<notin> newDepIds (watchers st w) then removeAll w (subs st d) else subs st d)"
proof (induction ds arbitrary: st)
  case Nil
  then show ?case by simp
next
  case (Cons a ds)
  let ?st' = "if a \<notin> newDepIds (watchers st w) then removeSub a w st else st"
  have d': "\<forall>d. distinct (subs ?st' d)" using Cons.prems by simp
  have w': "watchers ?st' = watchers st" by simp
  show ?case
    using Cons.IH[OF d'] Cons.prems
    by (auto simp: distinct_remove1_removeAll)
qed

lemma cleanupDeps_ok: "subs_ok st \<Longrightarrow> subs_ok (cleanupDeps w st)"
  unfolding subs_ok_def cleanupDeps_def Let_def
  by (auto simp: cleanup_loop_subs distinct_removeAll split: if_splits) blast+


lemma exec_get_ok:
  "subs_ok st \<Longrightarrow> subs_ok (snd (exec_acts as st))"
  "subs_ok st \<Longrightarrow> subs_ok (snd (get_ev w ev st))"
proof (induction as st and w ev st rule: exec_acts_get_ev.induct)
  case (1 st)
  then show ?case by simp
next
  case (2 d as st)
  then show ?case by (simp add: depend_ok)
next
  case (3 w e as st)
  obtain r st' where g: "get_ev w e st = (r, st')" by (cases "get_ev w e st")
  from 3(1)[OF 3(3)] g have ok': "subs_ok st'" by simp
  show ?case
  proof (cases r)
    case (Inl x)
    with g ok' show ?thesis by simp
  next
    case (Inr v)
    from 3(2)[OF g[unfolded Inr, symmetric] refl ok'] g Inr show ?thesis by simp
  qed
next
  case (4 w as out st)
  let ?st1 = "log (GetterCalled w) (pushTarget (Some w) st)"
  obtain thrown st2 where e: "exec_acts as ?st1 = (thrown, st2)" by (cases "exec_acts as ?st1")
  have "subs_ok ?st1" using 4(2) by simp
  from 4(1)[OF refl this] e have ok2: "subs_ok st2" by simp
  show ?case using e ok2
    by (simp add: Let_def cleanupDeps_ok traverse_ok split: outcome.splits option.splits)
qed

lemma get_ok: "subs_ok st \<Longrightarrow> subs_ok (snd (get w st))"
  by (simp add: get_def exec_get_ok)

lemma run_ok: "subs_ok st \<Longrightarrow> subs_ok (snd (run w st))"
proof -
  assume ok: "subs_ok st"
  obtain r st1 where g: "get w st = (r, st1)" by (cases "get w st")
  from get_ok[OF ok, of w] g have "subs_ok st1" by simp
  then show ?thesis using ok g
    by (simp add: run_def Let_def split: sum.splits option.splits)
qed

lemma update_ok: "subs_ok st \<Longrightarrow> subs_ok (snd (update w st))"
  by (simp add: update_def Let_def run_ok)

lemma update_all_ok: "subs_ok st \<Longrightarrow> subs_ok (snd (update_all ws st))"
proof (induction ws arbitrary: st)
  case Nil
  then show ?case by simp
next
  case (Cons w ws)
  obtain r st1 where u: "update w st = (r, st1)" by (cases "update w st")
  from update_ok[OF Cons.prems, of w] u have "subs_ok st1" by simp
  then show ?case using u Cons.IH[of st1] by (simp split: option.splits)
qed

lemma notify_ok: "subs_ok st \<Longrightarrow> subs_ok (snd (notify d st))"
  by (simp add: notify_def Let_def update_all_ok)

lemma removeSub_ok: "subs_ok st \<Longrightarrow> subs_ok (removeSub d w st)"
  unfolding subs_ok_def by (auto dest: notin_set_remove1) (meson notin_set_remove1)+

lemma teardown_loop_ok: "subs_ok st \<Longrightarrow> subs_ok (teardown_loop w ds st)"
  by (induction ds arbitrary: st) (simp_all add: removeSub_ok)

lemma subs_ok_vms [simp]: "subs_ok (st\<lparr>vms := x\<rparr>) = subs_ok st"
  by (simp add: subs_ok_def)

lemma teardown_ok: "subs_ok st \<Longrightarrow> subs_ok (teardown w st)"
  by (simp add: teardown_def Let_def teardown_loop_ok)


lemma initial_ok: "initial st \<Longrightarrow> subs_ok st"
  by (simp add: initial_def subs_ok_def)

lemma subs_ok_world [simp]: "subs_ok (st\<lparr>world := h\<rparr>) = subs_ok st"
  by (simp add: subs_ok_def)

lemma reachable_ok: "reachable st \<Longrightarrow> subs_ok st"
  by (induction rule: reachable.induct)
     (simp_all add: initial_ok exec_get_ok get_ok run_ok update_ok notify_ok teardown_ok depend_ok addDep_ok)

lemma distinct_count_le: "distinct xs \<Longrightarrow> count_list xs x \<le> Suc 0"
  by (induction xs) auto

lemma subs_ok_count: "subs_ok st \<Longrightarrow> count_list (subs st d) w \<le> 1"
  using distinct_count_le[of "subs st d" w] by (simp add: subs_ok_def)

lemmas eval_defs = fresh_def blank_def log_def upd_watcher_def pushTarget_def popTarget_def
  addSub_def removeSub_def remove_def addDep_def depend_def traverse_def cleanupDeps_def
  handleError_def Let_def

section \<open>What evaluation leaves unchanged\<close>

lemma dep_fields_only_refl [simp]: "dep_fields_only W W"
  by (simp add: dep_fields_only_def)

lemma dep_fields_only_trans:
  "dep_fields_only W1 W \<Longrightarrow> dep_fields_only W2 W1 \<Longrightarrow> dep_fields_only W2 W"
  unfolding dep_fields_only_def by (cases W, cases W1, cases W2) simp

lemma dep_fields_onlyD:
  assumes "dep_fields_only W' W"
  shows "vm W' = vm W" "expression W' = expression W" "cb W' = cb W" "deep W' = deep W"
    "user W' = user W" "lazy W' = lazy W" "sync W' = sync W" "dirty W' = dirty W"
    "active W' = active W" "getter W' = getter W" "wvalue W' = wvalue W"
  using assms unfolding dep_fields_only_def by (cases W, cases W', simp)+

lemma evolves_refl [simp]: "evolves st st"
  by (simp add: evolves_def)

lemma evolves_trans: "evolves st st1 \<Longrightarrow> evolves st1 st2 \<Longrightarrow> evolves st st2"
  unfolding evolves_def by (auto intro: dep_fields_only_trans)

lemma evolves_log [simp]: "evolves st (log e st)"
  by (simp add: evolves_def)

lemma evolves_stack [simp]: "evolves st (pushTarget t st)" "evolves st (popTarget st)"
  by (simp_all add: evolves_def pushTarget_def popTarget_def Let_def)

lemma evolves_handleError [simp]: "evolves st (handleError x v i st)"
  by (simp add: handleError_def)

lemma evolves_removeSub [simp]: "evolves st (removeSub d w st)"
  by (simp add: evolves_def removeSub_def)

lemma evolves_addDep [simp]: "evolves st (addDep w d st)"
  by (simp add: evolves_def addDep_def Let_def addSub_def upd_watcher_def dep_fields_only_def)

lemma evolves_depend [simp]: "evolves st (depend d st)"
  unfolding depend_def Let_def
  by (auto split: option.splits intro: evolves_trans[OF evolves_log evolves_addDep])

lemma evolves_traverse [simp]: "evolves st (traverse ds st)"
  unfolding traverse_def
proof (induction ds arbitrary: st)
  case Nil
  then show ?case by simp
next
  case (Cons a ds)
  show ?case using evolves_trans[OF evolves_depend Cons[of "depend a st"]] by simp
qed

lemma evolves_cleanup_loop [simp]: "evolves st (cleanup_loop w ds st)"
proof (induction ds arbitrary: st)
  case Nil
  then show ?case by simp
next
  case (Cons a ds)
  show ?case
    using evolves_trans[OF evolves_removeSub Cons[of "removeSub a w st"]] Cons[of st]
    by simp
qed

lemma evolves_cleanupDeps [simp]: "evolves st (cleanupDeps w st)"
proof -
  have "evolves (cleanup_loop w (rev (deps (watchers st w))) st) (cleanupDeps w st)"
    by (simp add: cleanupDeps_def Let_def evolves_def dep_fields_only_def)
  with evolves_cleanup_loop show ?thesis by (rule evolves_trans)
qed

lemma evolves_exec_get:
  "evolves st (snd (exec_acts as st))"
  "evolves st (snd (get_ev w ev st))"
proof (induction as st and w ev st rule: exec_acts_get_ev.induct)
  case (1 st)
  then show ?case by simp
next
  case (2 d as st)
  then show ?case using evolves_trans[OF evolves_depend] by simp
next
  case (3 w e as st)
  obtain r st' where g: "get_ev w e st = (r, st')" by (cases "get_ev w e st")
  from 3(1) g have e1: "evolves st st'" by simp
  show ?case
  proof (cases r)
    case (Inl x)
    with g e1 show ?thesis by simp
  next
    case (Inr v)
    from 3(2)[OF g[unfolded Inr, symmetric] refl] g Inr e1 show ?thesis
      by (auto intro: evolves_trans)
  qed
next
  case (4 w as out st)
  let ?st1 = "log (GetterCalled w) (pushTarget (Some w) st)"
  obtain thrown st2 where e: "exec_acts as ?st1 = (thrown, st2)" by (cases "exec_acts as ?st1")
  have a: "evolves st ?st1" by (rule evolves_trans[OF evolves_stack(1) evolves_log])
  from 4(1)[OF refl] e have "evolves ?st1 st2" by simp
  with a have b: "evolves st st2" by (rule evolves_trans)
  have c: "\<And>s. evolves st s \<Longrightarrow> evolves st (cleanupDeps w (popTarget s))"
    by (blast intro: evolves_trans evolves_stack evolves_cleanupDeps)
  have d: "\<And>s ds. evolves st s \<Longrightarrow> evolves st (traverse ds s)"
    by (blast intro: evolves_trans evolves_traverse)
  have h: "\<And>s x v i. evolves st s \<Longrightarrow> evolves st (handleError x v i s)"
    by (blast intro: evolves_trans evolves_handleError)
  show ?case using e b c d h
    by (simp add: Let_def split: outcome.splits option.splits)
qed

section \<open>Exceptions\<close>

lemma evolves_call_getter: "evolves st (snd (call_getter w ev st))"
proof (cases ev)
  case (Evaluation as out)
  let ?st1 = "log (GetterCalled w) (pushTarget (Some w) st)"
  have a: "evolves st ?st1" by (rule evolves_trans[OF evolves_stack(1) evolves_log])
  have "evolves ?st1 (snd (exec_acts as ?st1))" by (rule evolves_exec_get)
  with a have "evolves st (snd (exec_acts as ?st1))" by (rule evolves_trans)
  then show ?thesis using Evaluation
    by (auto simp: call_getter_def split: prod.splits option.splits)
qed

lemma evolves_watcher: "evolves st st' \<Longrightarrow> dep_fields_only (watchers st' w) (watchers st w)"
  by (simp add: evolves_def)

lemma get_ev_throws:
  assumes "call_getter w ev st = (Throws x, st2)"
  shows "\<not> user (watchers st w) \<Longrightarrow> fst (get_ev w ev st) = Inl x"
    and "user (watchers st w) \<Longrightarrow> fst (get_ev w ev st) = Inr Undefined"
    and "user (watchers st w) \<Longrightarrow> trace (snd (get_ev w ev st)) =
           trace st2 @ [Reported x (vm (watchers st w)) (getter_label (watchers st w))]"
    and "\<not> user (watchers st w) \<Longrightarrow> trace (snd (get_ev w ev st)) = trace st2"
proof -
  obtain as out where ev: "ev = Evaluation as out" by (cases ev)
  let ?st1 = "log (GetterCalled w) (pushTarget (Some w) st)"
  obtain thrown s2 where e: "exec_acts as ?st1 = (thrown, s2)" by (cases "exec_acts as ?st1")
  from assms ev e have s2: "s2 = st2" and res: "(case thrown of Some x \<Rightarrow> Throws x | None \<Rightarrow> out) = Throws x"
    by (auto simp: call_getter_def split: option.splits)
  have "evolves st st2" using evolves_call_getter[of st w ev] assms by simp
  then have d: "dep_fields_only (watchers st2 w) (watchers st w)" by (rule evolves_watcher)
  note f = dep_fields_onlyD[OF d]
  have gl: "getter_label (watchers st2 w) = getter_label (watchers st w)"
    by (simp add: getter_label_def f)
  show "\<not> user (watchers st w) \<Longrightarrow> fst (get_ev w ev st) = Inl x"
    using ev e s2 res f by (simp add: Let_def)
  show "user (watchers st w) \<Longrightarrow> fst (get_ev w ev st) = Inr Undefined"
    using ev e s2 res f by (simp add: Let_def)
  show "user (watchers st w) \<Longrightarrow> trace (snd (get_ev w ev st)) =
           trace st2 @ [Reported x (vm (watchers st w)) (getter_label (watchers st w))]"
    using ev e s2 res f gl by (simp add: Let_def cleanupDeps_def handleError_def popTarget_def)
  show "\<not> user (watchers st w) \<Longrightarrow> trace (snd (get_ev w ev st)) = trace st2"
    using ev e s2 res f gl by (simp add: Let_def cleanupDeps_def handleError_def popTarget_def)
qed


lemma run_callback_throws:
  assumes "active (watchers st w)" and "get w st = (Inr v, st1)"
    and "\<not> strict_eq v (wvalue (watchers st w)) \<or> isObject v \<or> deep (watchers st w)"
    and "cb (watchers st w) v (wvalue (watchers st w)) = Some x"
  shows "user (watchers st w) \<Longrightarrow> fst (run w st) = None"
    and "user (watchers st w) \<Longrightarrow> trace (snd (run w st)) =
           trace st1 @ [CallbackCalled w v (wvalue (watchers st w)),
                        Reported x (vm (watchers st w)) (callback_label (watchers st w))]"
    and "\<not> user (watchers st w) \<Longrightarrow> fst (run w st) = Some x"
proof -
  have "evolves st st1" using evolves_exec_get(2)[of st w "getter (watchers st w) (world st)"] assms(2)
    by (simp add: get_def)
  then have d: "dep_fields_only (watchers st1 w) (watchers st w)" by (rule evolves_watcher)
  note f = dep_fields_onlyD[OF d]
  have cl: "callback_label (watchers st1 w) = callback_label (watchers st w)"
    by (simp add: callback_label_def f)
  show "user (watchers st w) \<Longrightarrow> fst (run w st) = None"
    using assms f by (auto simp: run_def Let_def)
  show "user (watchers st w) \<Longrightarrow> trace (snd (run w st)) =
           trace st1 @ [CallbackCalled w v (wvalue (watchers st w)),
                        Reported x (vm (watchers st w)) (callback_label (watchers st w))]"
    using assms f cl by (auto simp: run_def Let_def handleError_def)
  show "\<not> user (watchers st w) \<Longrightarrow> fst (run w st) = Some x"
    using assms f by (auto simp: run_def Let_def)
qed


section \<open>The calls logged\<close>

lemma updates_of_simps [simp]:
  "updates_of [] = []"
  "updates_of (es @ fs) = updates_of es @ updates_of fs"
  "updates_of (Updated w # es) = w # updates_of es"
  "updates_of (GetterCalled w # es) = updates_of es"
  "updates_of (DependReached d t # es) = updates_of es"
  "updates_of (Notified d # es) = updates_of es"
  "updates_of (CallbackCalled w v v' # es) = updates_of es"
  "updates_of (Reported x vv i # es) = updates_of es"
  "updates_of (Warned m # es) = updates_of es"
  "updates_of (CustomSetterCalled a k # es) = updates_of es"
  "updates_of (SetterCalled a k v # es) = updates_of es"
  by (simp_all add: updates_of_def)

lemma trace_simple [simp]:
  "trace (pushTarget t st) = trace st" "trace (popTarget st) = trace st"
  "trace (queueWatcher w st) = trace st"
  "trace (handleError x v i st) = trace st @ [Reported x v i]"
  by (simp_all add: pushTarget_def popTarget_def queueWatcher_def handleError_def Let_def)

lemma trace_addDep [simp]: "trace (addDep w d st) = trace st"
  by (simp add: addDep_def Let_def)

lemma trace_depend [simp]: "trace (depend d st) = trace st @ [DependReached d (target st)]"
  by (simp add: depend_def Let_def split: option.splits)

lemma trace_cleanupDeps [simp]: "trace (cleanupDeps w st) = trace st"
  by (simp add: cleanupDeps_def Let_def)

lemma updates_traverse [simp]: "updates_of (trace (traverse ds st)) = updates_of (trace st)"
  unfolding traverse_def by (induction ds arbitrary: st) simp_all

lemma updates_exec_get:
  "updates_of (trace (snd (exec_acts as st))) = updates_of (trace st)"
  "updates_of (trace (snd (get_ev w ev st))) = updates_of (trace st)"
proof (induction as st and w ev st rule: exec_acts_get_ev.induct)
  case (1 st)
  then show ?case by simp
next
  case (2 d as st)
  then show ?case by simp
next
  case (3 w e as st)
  obtain r st' where g: "get_ev w e st = (r, st')" by (cases "get_ev w e st")
  from 3(1) g have e1: "updates_of (trace st') = updates_of (trace st)" by simp
  show ?case
  proof (cases r)
    case (Inl x)
    with g e1 show ?thesis by simp
  next
    case (Inr v)
    from 3(2)[OF g[unfolded Inr, symmetric] refl] g Inr e1 show ?thesis by simp
  qed
next
  case (4 w as out st)
  let ?st1 = "log (GetterCalled w) (pushTarget (Some w) st)"
  obtain thrown st2 where e: "exec_acts as ?st1 = (thrown, st2)" by (cases "exec_acts as ?st1")
  from 4(1)[OF refl] e have "updates_of (trace st2) = updates_of (trace st)" by simp
  then show ?case using e
    by (simp add: Let_def split: outcome.splits option.splits)
qed

lemma updates_run: "updates_of (trace (snd (run w st))) = updates_of (trace st)"
proof -
  obtain r st1 where g: "get w st = (r, st1)" by (cases "get w st")
  from updates_exec_get(2)[of w "getter (watchers st w) (world st)" st] g
  have "updates_of (trace st1) = updates_of (trace st)" by (simp add: get_def)
  then show ?thesis using g
    by (simp add: run_def Let_def split: sum.splits option.splits)
qed

lemma updates_update: "updates_of (trace (snd (update w st))) = updates_of (trace st) @ [w]"
  by (simp add: update_def Let_def updates_run)

lemma updates_update_all:
  "\<exists>k. k \<le> length ws \<and> updates_of (trace (snd (update_all ws st))) = updates_of (trace st) @ take k ws
        \<and> (fst (update_all ws st) = None \<longrightarrow> k = length ws)"
proof (induction ws arbitrary: st)
  case Nil
  then show ?case by simp
next
  case (Cons w ws)
  obtain r st1 where u: "update w st = (r, st1)" by (cases "update w st")
  from updates_update[of w st] u have t1: "updates_of (trace st1) = updates_of (trace st) @ [w]" by simp
  show ?case
  proof (cases r)
    case (Some x)
    with u t1 have "Suc 0 \<le> length (w # ws) \<and> updates_of (trace (snd (update_all (w # ws) st))) = updates_of (trace st) @ take (Suc 0) (w # ws)
        \<and> (fst (update_all (w # ws) st) = None \<longrightarrow> Suc 0 = length (w # ws))" by simp
    then show ?thesis by (rule exI[of _ "Suc 0"])
  next
    case None
    from Cons[of st1] obtain k where k1: "k \<le> length ws"
      and k2: "updates_of (trace (snd (update_all ws st1))) = updates_of (trace st1) @ take k ws"
      and k3: "fst (update_all ws st1) = None \<longrightarrow> k = length ws" by (elim exE conjE)
    have ua: "update_all (w # ws) st = update_all ws st1" using u None by simp
    have "Suc k \<le> length (w # ws) \<and>
       updates_of (trace (snd (update_all (w # ws) st))) = updates_of (trace st) @ take (Suc k) (w # ws)
        \<and> (fst (update_all (w # ws) st) = None \<longrightarrow> Suc k = length (w # ws))"
      unfolding ua using k1 k2 k3 t1 by simp
    then show ?thesis by (rule exI[of _ "Suc k"])
  qed
qed


lemmas run_defs = get_def run_def update_def notify_def queueWatcher_def strict_eq_def

lemma queueWatcher_mem: "w \<in> set (queue (queueWatcher w st))"
  by (simp add: queueWatcher_def set_insort_key)

lemma queueWatcher_fields [simp]:
  "watchers (queueWatcher w st) = watchers st" "subs (queueWatcher w st) = subs st"
  "target (queueWatcher w st) = target st" "targetStack (queueWatcher w st) = targetStack st"
  "world (queueWatcher w st) = world st" "vms (queueWatcher w st) = vms st"
  by (simp_all add: queueWatcher_def)

section \<open>Teardown\<close>

lemma teardown_loop_watchers [simp]: "watchers (teardown_loop w ds st) = watchers st"
  by (induction ds arbitrary: st) simp_all

lemma teardown_loop_vms [simp]: "vms (teardown_loop w ds st) = vms st"
  by (induction ds arbitrary: st) simp_all







section \<open>Dependency collection\<close>

lemma reads_of_simps [simp]:
  "reads_of w [] = []"
  "reads_of w (es @ fs) = reads_of w es @ reads_of w fs"
  "reads_of w (DependReached d t # es) = (if t = Some w then d # reads_of w es else reads_of w es)"
  "reads_of w (Updated x # es) = reads_of w es"
  "reads_of w (GetterCalled x # es) = reads_of w es"
  "reads_of w (Notified d # es) = reads_of w es"
  "reads_of w (CallbackCalled x v v' # es) = reads_of w es"
  "reads_of w (Reported y vv i # es) = reads_of w es"
  "reads_of w (Warned m # es) = reads_of w es"
  "reads_of w (CustomSetterCalled a k # es) = reads_of w es"
  "reads_of w (SetterCalled a k v # es) = reads_of w es"
  by (simp_all add: reads_of_def)

lemma frame_refl [simp]: "frame x st st"
  by (simp add: frame_def)



lemma frame_addDep: "x \<noteq> w \<Longrightarrow> frame x st (addDep w d st)"
  by (simp add: frame_def addDep_def Let_def)







lemma tracks_refl [simp]: "tracks w st st"
  by (simp add: tracks_def)






lemma acts_ws_reads [simp]: "acts_ws (map Depend ds) = {}"
  by (induction ds) simp_all








section \<open>observe returns\<close>

lemma grows_refl [simp]: "grows st st"
  by (simp add: grows_def)

lemma grows_trans:
  assumes a: "grows st st1" and b: "grows st1 st2"
  shows "grows st st2"
proof -
  have c: "closures (world st2) p = closures (world st) p" if "p < closure_uid (world st)" for p
  proof -
    from that a have "p < closure_uid (world st1)" by (simp add: grows_def)
    with b have "closures (world st2) p = closures (world st1) p" by (simp add: grows_def)
    moreover from that a have "closures (world st1) p = closures (world st) p" by (simp add: grows_def)
    ultimately show ?thesis by simp
  qed
  have d: "ob (objs (world st2) ! x) \<noteq> None"
    if "x < length (objs (world st))" and "ob (objs (world st) ! x) \<noteq> None" for x
  proof -
    from that a have 1: "ob (objs (world st1) ! x) \<noteq> None" unfolding grows_def by blast
    from that(1) a have "x < length (objs (world st1))" by (simp add: grows_def)
    with 1 b show ?thesis unfolding grows_def by blast
  qed
  have e: "length (objs (world st2)) = length (objs (world st))"
    "unobserved (world st2) \<le> unobserved (world st)"
    "closure_uid (world st) \<le> closure_uid (world st2)"
    "trace st2 = trace st" "watchers st2 = watchers st"
    "production st2 = production st" "async st2 = async st"
    using a b by (simp_all add: grows_def)
  show ?thesis by (simp add: grows_def e c d)
qed

lemma upd_world_fields [simp]:
  "world (upd_world f st) = f (world st)" "trace (upd_world f st) = trace st"
  "watchers (upd_world f st) = watchers st" "production (upd_world f st) = production st"
  "async (upd_world f st) = async st" "subs (upd_world f st) = subs st"
  "target (upd_world f st) = target st" "targetStack (upd_world f st) = targetStack st"
  "vms (upd_world f st) = vms st" "queue (upd_world f st) = queue st"
  by (simp_all add: upd_world_def)

lemma upd_obj_fields [simp]:
  "closures (upd_obj a f h) = closures h" "closure_uid (upd_obj a f h) = closure_uid h"
  "dep_uid (upd_obj a f h) = dep_uid h" "length (objs (upd_obj a f h)) = length (objs h)"
  "shouldObserve (upd_obj a f h) = shouldObserve h"
  "serverRendering (upd_obj a f h) = serverRendering h"
  "objs (upd_obj a f h) = (objs h)[a := f (objs h ! a)]"
  by (simp_all add: upd_obj_def)

lemma upd_closure_fields [simp]:
  "objs (upd_closure p f h) = objs h" "closure_uid (upd_closure p f h) = closure_uid h"
  "dep_uid (upd_closure p f h) = dep_uid h"
  "closures (upd_closure p f h) = (closures h)(p := f (closures h p))"
  by (simp_all add: upd_closure_def)

lemma unobserved_same_ob:
  assumes "length (objs h') = length (objs h)"
    and "\<And>a. a < length (objs h) \<Longrightarrow> (ob (objs h' ! a) = None) = (ob (objs h ! a) = None)"
  shows "unobserved h' = unobserved h"
proof -
  have "(a < length (objs h') \<and> ob (objs h' ! a) = None)
      = (a < length (objs h) \<and> ob (objs h ! a) = None)" for a
    by (cases "a < length (objs h)") (simp_all add: assms)
  then have "{a. a < length (objs h') \<and> ob (objs h' ! a) = None}
      = {a. a < length (objs h) \<and> ob (objs h ! a) = None}"
    by (rule Collect_cong)
  then show ?thesis by (simp add: unobserved_def)
qed

lemma unobserved_le_length: "unobserved h \<le> length (objs h)"
proof -
  have "{a. a < length (objs h) \<and> ob (objs h ! a) = None} \<subseteq> {..<length (objs h)}" by auto
  from card_mono[OF _ this] show ?thesis by (simp add: unobserved_def)
qed

lemma unobserved_zero:
  assumes "unobserved h = 0" and "a < length (objs h)"
  shows "ob (objs h ! a) \<noteq> None"
proof
  assume n: "ob (objs h ! a) = None"
  have fin: "finite {a. a < length (objs h) \<and> ob (objs h ! a) = None}" by simp
  have "a \<in> {a. a < length (objs h) \<and> ob (objs h ! a) = None}" using assms(2) n by simp
  with fin have "card {a. a < length (objs h) \<and> ob (objs h ! a) = None} \<noteq> 0"
    by (metis card_0_eq empty_iff)
  with assms(1) show False by (simp add: unobserved_def)
qed

lemma unobserved_attach:
  assumes "a < length (objs h)" and "ob (objs h ! a) = None" and "ob (f (objs h ! a)) \<noteq> None"
  shows "Suc (unobserved (upd_obj a f h)) = unobserved h"
proof -
  let ?S = "{b. b < length (objs h) \<and> ob (objs h ! b) = None}"
  have fin: "finite ?S" by simp
  have mem: "a \<in> ?S" using assms by simp
  have "(b < length (objs (upd_obj a f h)) \<and> ob (objs (upd_obj a f h) ! b) = None)
      = (b \<in> ?S - {a})" for b
    using assms by (cases "b = a") (simp_all add: nth_list_update)
  then have "{b. b < length (objs (upd_obj a f h)) \<and> ob (objs (upd_obj a f h) ! b) = None} = ?S - {a}"
    by blast
  then have "unobserved (upd_obj a f h) = card (?S - {a})" by (simp add: unobserved_def)
  also have "Suc \<dots> = card ?S" by (rule card_Suc_Diff1[OF fin mem])
  finally show ?thesis by (simp add: unobserved_def)
qed


lemma unobserved_objs: "objs h' = objs h \<Longrightarrow> unobserved h' = unobserved h"
  by (simp add: unobserved_def)

lemma new_Dep_fields [simp]:
  "objs (world (snd (new_Dep st))) = objs (world st)"
  "closures (world (snd (new_Dep st))) = closures (world st)"
  "closure_uid (world (snd (new_Dep st))) = closure_uid (world st)"
  "shouldObserve (world (snd (new_Dep st))) = shouldObserve (world st)"
  "serverRendering (world (snd (new_Dep st))) = serverRendering (world st)"
  "trace (snd (new_Dep st)) = trace st" "watchers (snd (new_Dep st)) = watchers st"
  "production (snd (new_Dep st)) = production st" "async (snd (new_Dep st)) = async st"
  "fst (new_Dep st) = dep_uid (world st)"
  by (simp_all add: new_Dep_def Let_def)

lemma unobserved_mono:
  assumes "length (objs h') = length (objs h)"
    and "\<And>x. x < length (objs h) \<Longrightarrow> ob (objs h' ! x) = None \<Longrightarrow> ob (objs h ! x) = None"
  shows "unobserved h' \<le> unobserved h"
proof -
  have "{a. a < length (objs h') \<and> ob (objs h' ! a) = None}
        \<subseteq> {a. a < length (objs h) \<and> ob (objs h ! a) = None}"
  proof (rule subsetI)
    fix a assume "a \<in> {a. a < length (objs h') \<and> ob (objs h' ! a) = None}"
    then have 1: "a < length (objs h)" and 2: "ob (objs h' ! a) = None"
      using assms(1) by simp_all
    from assms(2)[OF 1 2] 1 show "a \<in> {a. a < length (objs h) \<and> ob (objs h ! a) = None}"
      by simp
  qed
  from card_mono[OF _ this] show ?thesis by (simp add: unobserved_def)
qed

lemma grows_objs:
  assumes "length (objs (world st')) = length (objs (world st))"
    and "\<And>x. x < length (objs (world st)) \<Longrightarrow> ob (objs (world st') ! x) = None
            \<Longrightarrow> ob (objs (world st) ! x) = None"
    and "closure_uid (world st) \<le> closure_uid (world st')"
    and "\<And>p. p < closure_uid (world st) \<Longrightarrow> closures (world st') p = closures (world st) p"
    and "trace st' = trace st" and "watchers st' = watchers st"
    and "production st' = production st" and "async st' = async st"
  shows "grows st st'"
proof -
  have u: "unobserved (world st') \<le> unobserved (world st)"
    by (rule unobserved_mono[OF assms(1) assms(2)])
  have k: "\<forall>a<length (objs (world st)). ob (objs (world st) ! a) \<noteq> None
             \<longrightarrow> ob (objs (world st') ! a) \<noteq> None"
  proof (intro allI impI)
    fix a assume 1: "a < length (objs (world st))" and 2: "ob (objs (world st) ! a) \<noteq> None"
    show "ob (objs (world st') ! a) \<noteq> None"
    proof
      assume "ob (objs (world st') ! a) = None"
      from assms(2)[OF 1 this] 2 show False by (rule notE[rotated])
    qed
  qed
  show ?thesis unfolding grows_def using assms(1,3,5-8) u k assms(4) by simp
qed

lemma grows_new_Dep: "grows st (snd (new_Dep st))"
  by (rule grows_objs) simp_all

lemma nth_upd_ob:
  assumes "\<And>o'. ob (f o') = None \<Longrightarrow> ob o' = None"
  shows "ob ((xs[a := f (xs ! a)]) ! x) = None \<Longrightarrow> ob (xs ! x) = None"
  using assms by (cases "a < length xs"; cases "x = a")
    (simp_all add: nth_list_update list_update_beyond)

lemma grows_count_root: "grows st (count_root r a st)"
proof (cases r)
  case False
  then show ?thesis by (simp add: count_root_def)
next
  case True
  let ?f = "\<lambda>o'. o'\<lparr>ob := map_option (\<lambda>b. b\<lparr>vmCount := Suc (vmCount b)\<rparr>) (ob o')\<rparr>"
  have c: "count_root r a st = upd_world (upd_obj a ?f) st" using True by (simp add: count_root_def)
  show ?thesis unfolding c
  proof (rule grows_objs)
    fix x assume "ob (objs (world (upd_world (upd_obj a ?f) st)) ! x) = None"
    then show "ob (objs (world st) ! x) = None"
      using nth_upd_ob[of ?f "objs (world st)" a x] by simp
  qed simp_all
qed

lemma grows_install: "grows st2 (install a k d valarg cs sh st1 childOb st2)"
proof (rule grows_objs)
  let ?f = "\<lambda>o'. o'\<lparr>props := AList.update k
              \<lparr>configurable = True, enumerable = True, writable = True,
               slot = Reactive (closure_uid (world st2))\<rparr> (props o')\<rparr>"
  have o: "objs (world (install a k d valarg cs sh st1 childOb st2))
         = (objs (world st2))[a := ?f (objs (world st2) ! a)]"
    by (simp add: install_def Let_def)
  show "length (objs (world (install a k d valarg cs sh st1 childOb st2))) = length (objs (world st2))"
    unfolding o by simp
  fix x assume "ob (objs (world (install a k d valarg cs sh st1 childOb st2)) ! x) = None"
  then show "ob (objs (world st2) ! x) = None"
    unfolding o using nth_upd_ob[of ?f "objs (world st2)" a x] by simp
qed (simp_all add: install_def Let_def)

lemma attach_Observer_props:
  assumes "a < length (objs (world st))" and "ob (objs (world st) ! a) = None"
  shows "grows st (attach_Observer a st)"
    and "Suc (unobserved (world (attach_Observer a st))) = unobserved (world st)"
    and "ob (objs (world (attach_Observer a st)) ! a) \<noteq> None"
proof -
  let ?st1 = "snd (new_Dep st)"
  let ?f = "\<lambda>o'. o'\<lparr>ob := Some \<lparr>ob_dep = fst (new_Dep st), vmCount = 0\<rparr>\<rparr>"
  have at: "attach_Observer a st = upd_world (upd_obj a ?f) ?st1"
    by (simp add: attach_Observer_def case_prod_beta)
  have a1: "a < length (objs (world ?st1))" "ob (objs (world ?st1) ! a) = None"
    using assms by simp_all
  have s: "Suc (unobserved (upd_obj a ?f (world ?st1))) = unobserved (world ?st1)"
    by (rule unobserved_attach[OF a1]) simp
  have u1: "unobserved (world ?st1) = unobserved (world st)"
    by (rule unobserved_objs) simp
  show "Suc (unobserved (world (attach_Observer a st))) = unobserved (world st)"
    unfolding at using s u1 by simp
  show "ob (objs (world (attach_Observer a st)) ! a) \<noteq> None"
    unfolding at using assms(1) by simp
  show "grows st (attach_Observer a st)" unfolding at
  proof (rule grows_objs)
    fix x assume x: "x < length (objs (world st))"
      and n: "ob (objs (world (upd_world (upd_obj a ?f) ?st1)) ! x) = None"
    show "ob (objs (world st) ! x) = None"
    proof (cases "x = a")
      case True
      with n assms(1) show ?thesis by simp
    next
      case False
      with n show ?thesis by simp
    qed
  qed simp_all
qed


lemma grows_unobserved: "grows st st' \<Longrightarrow> unobserved (world st') \<le> unobserved (world st)"
  by (simp add: grows_def)

lemma total_onD:
  assumes "total_on m obs" and "unobserved (world st) \<le> m"
  obtains res st' where "obs v r st = Some (res, st')" and "grows st st'"
  using assms unfolding total_on_def by blast

lemma defineReactive_with_total:
  assumes t: "total_on m obs" and u: "unobserved (world st) \<le> m"
  shows "\<exists>st'. defineReactive_with obs a k valarg cs sh st = Some st' \<and> grows st st'"
proof -
  obtain d st1 where n: "new_Dep st = (d, st1)" by (cases "new_Dep st")
  have g1: "grows st st1" using grows_new_Dep[of st] n by simp
  show ?thesis
  proof (cases "not_configurable (world st1) a k")
    case True
    with n g1 show ?thesis by (simp add: defineReactive_with_def)
  next
    case nc: False
    show ?thesis
    proof (cases sh)
      case True
      have "grows st1 (install a k d valarg cs sh st1 None st1)" by (rule grows_install)
      with g1 have "grows st (install a k d valarg cs sh st1 None st1)" by (rule grows_trans)
      with n nc True show ?thesis by (simp add: defineReactive_with_def)
    next
      case False
      from grows_unobserved[OF g1] u have u1: "unobserved (world st1) \<le> m" by simp
      from total_onD[OF t u1, of "first_val (world st1) a k valarg" False]
      obtain res st2 where o: "obs (first_val (world st1) a k valarg) False st1 = Some (res, st2)"
        and g2: "grows st1 st2" by blast
      have "grows st2 (install a k d valarg cs sh st1 res st2)" by (rule grows_install)
      with grows_trans[OF g1 g2] have "grows st (install a k d valarg cs sh st1 res st2)"
        by (rule grows_trans)
      with n nc False o show ?thesis by (simp add: defineReactive_with_def)
    qed
  qed
qed

lemma walk_with_total:
  assumes t: "total_on m obs"
  shows "unobserved (world st) \<le> m \<Longrightarrow> \<exists>st'. walk_with obs a ks st = Some st' \<and> grows st st'"
proof (induction ks arbitrary: st)
  case Nil
  then show ?case by simp
next
  case (Cons k ks)
  from defineReactive_with_total[OF t Cons.prems, of a k None False False]
  obtain st1 where d: "defineReactive_with obs a k None False False st = Some st1"
    and g1: "grows st st1" by blast
  from grows_unobserved[OF g1] Cons.prems have "unobserved (world st1) \<le> m" by simp
  from Cons.IH[OF this] obtain st' where w: "walk_with obs a ks st1 = Some st'"
    and g2: "grows st1 st'" by blast
  from d w grows_trans[OF g1 g2] show ?case by simp
qed

lemma observeArray_with_total:
  assumes t: "total_on m obs"
  shows "unobserved (world st) \<le> m \<Longrightarrow> \<exists>st'. observeArray_with obs vs st = Some st' \<and> grows st st'"
proof (induction vs arbitrary: st)
  case Nil
  then show ?case by simp
next
  case (Cons v vs)
  from total_onD[OF t Cons.prems, of v False]
  obtain res st1 where d: "obs v False st = Some (res, st1)" and g1: "grows st st1" by blast
  from grows_unobserved[OF g1] Cons.prems have "unobserved (world st1) \<le> m" by simp
  from Cons.IH[OF this] obtain st' where w: "observeArray_with obs vs st1 = Some st'"
    and g2: "grows st1 st'" by blast
  from d w grows_trans[OF g1 g2] show ?case by simp
qed

lemma Observer_with_total:
  assumes t: "total_on m obs" and a: "a < length (objs (world st))"
    and n: "ob (objs (world st) ! a) = None" and u: "unobserved (world st) \<le> Suc m"
  shows "\<exists>st'. Observer_with obs a st = Some st' \<and> grows st st'
            \<and> ob (objs (world st') ! a) \<noteq> None"
proof -
  let ?st2 = "attach_Observer a st"
  note p = attach_Observer_props[OF a n]
  from p(2) u have u2: "unobserved (world ?st2) \<le> m" by simp
  have len: "length (objs (world ?st2)) = length (objs (world st))" using p(1) by (simp add: grows_def)
  have keep: "ob (objs (world st') ! a) \<noteq> None" if "grows ?st2 st'" for st'
    using that p(3) a len unfolding grows_def by simp
  show ?thesis
  proof (cases "kind (objs (world ?st2) ! a) = Array")
    case True
    from observeArray_with_total[OF t u2, of "elems (objs (world ?st2) ! a)"]
    obtain st' where w: "observeArray_with obs (elems (objs (world ?st2) ! a)) ?st2 = Some st'"
      and g: "grows ?st2 st'" by blast
    from w True have "Observer_with obs a st = Some st'" by (simp add: Observer_with_def Let_def)
    with grows_trans[OF p(1) g] keep[OF g] show ?thesis by blast
  next
    case False
    from walk_with_total[OF t u2, of a "object_keys (objs (world ?st2) ! a)"]
    obtain st' where w: "walk_with obs a (object_keys (objs (world ?st2) ! a)) ?st2 = Some st'"
      and g: "grows ?st2 st'" by blast
    from w False have "Observer_with obs a st = Some st'" by (simp add: Observer_with_def Let_def)
    with grows_trans[OF p(1) g] keep[OF g] show ?thesis by blast
  qed
qed

lemma observe_with_cases:
  assumes "\<And>a. a < length (objs (world st)) \<Longrightarrow> ob (objs (world st) ! a) = None
              \<Longrightarrow> \<exists>st'. Observer_with obs a st = Some st' \<and> grows st st'"
  shows "\<exists>res st'. observe_with obs v r st = Some (res, st') \<and> grows st st'"
proof (cases v)
  case (Ref a)
  show ?thesis
  proof (cases "\<not> a < length (objs (world st)) \<or> kind (objs (world st) ! a) = VNode")
    case True
    with Ref show ?thesis by (auto simp: observe_with_def)
  next
    case valid: False
    show ?thesis
    proof (cases "ob (objs (world st) ! a) \<noteq> None")
      case True
      with Ref valid grows_count_root[of st r a] show ?thesis by (auto simp: observe_with_def)
    next
      case no: False
      show ?thesis
      proof (cases "observable (world st) a")
        case True
        from assms[of a] valid no obtain st1 where o: "Observer_with obs a st = Some st1"
          and g: "grows st st1" by auto
        have "grows st (count_root r a st1)" by (rule grows_trans[OF g grows_count_root])
        with Ref valid no True o show ?thesis by (auto simp: observe_with_def)
      next
        case False
        with Ref valid no show ?thesis by (auto simp: observe_with_def)
      qed
    qed
  qed
qed (simp_all add: observe_with_def)

lemma observe_with_total0: "total_on 0 (observe_with obs)"
  unfolding total_on_def
proof (intro allI impI)
  fix v r and st :: "heap state" assume "unobserved (world st) \<le> 0"
  then have z: "unobserved (world st) = 0" by simp
  show "\<exists>res st'. observe_with obs v r st = Some (res, st') \<and> grows st st'"
  proof (rule observe_with_cases)
    fix a assume "a < length (objs (world st))" and n: "ob (objs (world st) ! a) = None"
    from unobserved_zero[OF z this(1)] n
    show "\<exists>st'. Observer_with obs a st = Some st' \<and> grows st st'" by (rule notE)
  qed
qed

lemma observe_with_total: "total_on m obs \<Longrightarrow> total_on (Suc m) (observe_with obs)"
  unfolding total_on_def[of "Suc m"]
proof (intro allI impI)
  fix v r and st :: "heap state" assume t: "total_on m obs" and u: "unobserved (world st) \<le> Suc m"
  show "\<exists>res st'. observe_with obs v r st = Some (res, st') \<and> grows st st'"
  proof (rule observe_with_cases)
    fix a assume "a < length (objs (world st))" and "ob (objs (world st) ! a) = None"
    from Observer_with_total[OF t this u]
    show "\<exists>st'. Observer_with obs a st = Some st' \<and> grows st st'" by blast
  qed
qed

lemma observe_n_total: "total_on n (observe_n (Suc n))"
  by (induction n) (simp_all add: observe_with_total0 observe_with_total)

lemma observe_returns:
  "\<exists>res st'. observe_n (fuel st) v r st = Some (res, st') \<and> grows st st'"
proof -
  have "unobserved (world st) \<le> length (objs (world st))" by (rule unobserved_le_length)
  with observe_n_total[of "length (objs (world st))"] show ?thesis
    unfolding total_on_def fuel_def by blast
qed

section \<open>The reactive setter\<close>

lemma notifies_of_simps [simp]:
  "notifies_of [] = []"
  "notifies_of (es @ fs) = notifies_of es @ notifies_of fs"
  "notifies_of (Notified d # es) = d # notifies_of es"
  "notifies_of (Updated w # es) = notifies_of es"
  "notifies_of (GetterCalled w # es) = notifies_of es"
  "notifies_of (DependReached d t # es) = notifies_of es"
  "notifies_of (CallbackCalled w v v' # es) = notifies_of es"
  "notifies_of (Reported x vv i # es) = notifies_of es"
  "notifies_of (Warned m # es) = notifies_of es"
  "notifies_of (CustomSetterCalled a k # es) = notifies_of es"
  "notifies_of (SetterCalled a k v # es) = notifies_of es"
  by (simp_all add: notifies_of_def)

lemma notifies_traverse [simp]: "notifies_of (trace (traverse ds st)) = notifies_of (trace st)"
  unfolding traverse_def by (induction ds arbitrary: st) simp_all

lemma notifies_exec_get:
  "notifies_of (trace (snd (exec_acts as st))) = notifies_of (trace st)"
  "notifies_of (trace (snd (get_ev w ev st))) = notifies_of (trace st)"
proof (induction as st and w ev st rule: exec_acts_get_ev.induct)
  case (1 st)
  then show ?case by simp
next
  case (2 d as st)
  then show ?case by simp
next
  case (3 w e as st)
  obtain r st' where g: "get_ev w e st = (r, st')" by (cases "get_ev w e st")
  from 3(1) g have e1: "notifies_of (trace st') = notifies_of (trace st)" by simp
  show ?case
  proof (cases r)
    case (Inl x)
    with g e1 show ?thesis by simp
  next
    case (Inr v)
    from 3(2)[OF g[unfolded Inr, symmetric] refl] g Inr e1 show ?thesis by simp
  qed
next
  case (4 w as out st)
  let ?st1 = "log (GetterCalled w) (pushTarget (Some w) st)"
  obtain thrown st2 where e: "exec_acts as ?st1 = (thrown, st2)" by (cases "exec_acts as ?st1")
  from 4(1)[OF refl] e have "notifies_of (trace st2) = notifies_of (trace st)" by simp
  then show ?case using e
    by (simp add: Let_def split: outcome.splits option.splits)
qed

lemma run_frame:
  "notifies_of (trace (snd (run w st))) = notifies_of (trace st)"
  "world (snd (run w st)) = world st"
  "production (snd (run w st)) = production st" "async (snd (run w st)) = async st"
proof -
  obtain r st1 where g: "get w st = (r, st1)" by (cases "get w st")
  from notifies_exec_get(2)[of w "getter (watchers st w) (world st)" st] g
  have n: "notifies_of (trace st1) = notifies_of (trace st)" by (simp add: get_def)
  from evolves_exec_get(2)[of st w "getter (watchers st w) (world st)"] g
  have e: "world st1 = world st" "production st1 = production st" "async st1 = async st"
    by (simp_all add: get_def evolves_def)
  show "notifies_of (trace (snd (run w st))) = notifies_of (trace st)"
    using g n by (simp add: run_def Let_def split: sum.splits option.splits)
  show "world (snd (run w st)) = world st"
    using g e by (simp add: run_def Let_def handleError_def split: sum.splits option.splits)
  show "production (snd (run w st)) = production st"
    using g e by (simp add: run_def Let_def handleError_def split: sum.splits option.splits)
  show "async (snd (run w st)) = async st"
    using g e by (simp add: run_def Let_def handleError_def split: sum.splits option.splits)
qed

lemma update_frame:
  "notifies_of (trace (snd (update w st))) = notifies_of (trace st)"
  "world (snd (update w st)) = world st"
  "production (snd (update w st)) = production st" "async (snd (update w st)) = async st"
  by (simp_all add: update_def Let_def run_frame queueWatcher_def)

lemma update_all_frame:
  "notifies_of (trace (snd (update_all ws st))) = notifies_of (trace st)
   \<and> world (snd (update_all ws st)) = world st
   \<and> production (snd (update_all ws st)) = production st
   \<and> async (snd (update_all ws st)) = async st"
proof (induction ws arbitrary: st)
  case Nil
  then show ?case by simp
next
  case (Cons w ws)
  obtain r st1 where u: "update w st = (r, st1)" by (cases "update w st")
  from update_frame[of w st] u have f: "notifies_of (trace st1) = notifies_of (trace st)"
    "world st1 = world st" "production st1 = production st" "async st1 = async st" by simp_all
  show ?case using u f Cons.IH[of st1] by (cases r) simp_all
qed

lemma notify_frame:
  "notifies_of (trace (snd (notify d st))) = notifies_of (trace st) @ [d]"
  "world (snd (notify d st)) = world st"
  "production (snd (notify d st)) = production st" "async (snd (notify d st)) = async st"
proof -
  obtain ws where n: "notify d st = update_all ws (log (Notified d) st)"
    by (simp add: notify_def Let_def)
  note f = update_all_frame[of ws "log (Notified d) st"]
  show "notifies_of (trace (snd (notify d st))) = notifies_of (trace st) @ [d]"
    unfolding n using f by simp
  show "world (snd (notify d st)) = world st" unfolding n using f by simp
  show "production (snd (notify d st)) = production st" unfolding n using f by simp
  show "async (snd (notify d st)) = async st" unfolding n using f by simp
qed

lemma same_value_eq:
  "(strict_eq a b \<or> (\<not> strict_eq a a \<and> \<not> strict_eq b b)) = (a = b)"
  by (auto simp: strict_eq_def)

lemma observe_grows: "grows st (snd (observe v r st))"
  using observe_returns[of st v r] by (auto simp: observe_def)

lemma observe_result:
  assumes "a < length (objs (world st))" and "kind (objs (world st) ! a) \<noteq> VNode"
    and "ob (objs (world st) ! a) \<noteq> None \<or> observable (world st) a"
  shows "fst (observe (Ref a) r st) = Some a"
    and "ob (objs (world (snd (observe (Ref a) r st))) ! a) \<noteq> None"
proof -
  let ?n = "length (objs (world st))"
  have f: "observe_n (fuel st) = observe_with (observe_n ?n)" by (simp add: fuel_def)
  have "fst (observe (Ref a) r st) = Some a
      \<and> ob (objs (world (snd (observe (Ref a) r st))) ! a) \<noteq> None"
  proof (cases "ob (objs (world st) ! a) \<noteq> None")
    case True
    have g: "grows st (count_root r a st)" by (rule grows_count_root)
    from True assms(1) g have "ob (objs (world (count_root r a st)) ! a) \<noteq> None"
      unfolding grows_def by blast
    with True assms(1,2) show ?thesis by (simp add: observe_def f observe_with_def)
  next
    case False
    with assms(3) have obsv: "observable (world st) a" by simp
    from False have n: "ob (objs (world st) ! a) = None" by simp
    have t: "total_on (?n - 1) (observe_n ?n)"
    proof (cases ?n)
      case 0
      with assms(1) show ?thesis by simp
    next
      case (Suc m)
      then show ?thesis using observe_n_total[of m] by simp
    qed
    have u: "unobserved (world st) \<le> Suc (?n - 1)"
      using unobserved_le_length[of "world st"] by simp
    from Observer_with_total[OF t assms(1) n u] obtain st1 where
      o: "Observer_with (observe_n ?n) a st = Some st1" and g1: "grows st st1"
      and k1: "ob (objs (world st1) ! a) \<noteq> None" by blast
    have g: "grows st1 (count_root r a st1)" by (rule grows_count_root)
    have "a < length (objs (world st1))" using g1 assms(1) by (simp add: grows_def)
    with k1 g have "ob (objs (world (count_root r a st1)) ! a) \<noteq> None"
      unfolding grows_def by blast
    with n assms(1,2) obsv o show ?thesis by (simp add: observe_def f observe_with_def)
  qed
  then show "fst (observe (Ref a) r st) = Some a"
    and "ob (objs (world (snd (observe (Ref a) r st))) ! a) \<noteq> None" by simp_all
qed


lemma stored_fields [simp]:
  "objs (world (stored p v st)) = objs (world st)"
  "closure_uid (world (stored p v st)) = closure_uid (world st)"
  "shouldObserve (world (stored p v st)) = shouldObserve (world st)"
  "serverRendering (world (stored p v st)) = serverRendering (world st)"
  "closures (world (stored p v st)) = (closures (world st))(p := (closures (world st) p)\<lparr>c_val := v\<rparr>)"
  "notifies_of (trace (stored p v st)) = notifies_of (trace st)"
  "updates_of (trace (stored p v st)) = updates_of (trace st)"
  "subs (stored p v st) = subs st" "watchers (stored p v st) = watchers st"
  by (simp_all add: stored_def upd_closure_def)

lemma setter_same:
  "newVal = reactive_value p (world st) \<Longrightarrow> reactiveSetter p newVal st = (None, st)"
  by (subst reactiveSetter.simps) (simp add: same_value_eq Let_def)

lemma setter_getter_only:
  assumes "newVal \<noteq> reactive_value p (world st)"
    and "c_getter (closures (world st) p) \<noteq> NoGetter"
    and "c_setter (closures (world st) p) = NoSetter"
  shows "reactiveSetter p newVal st = (None, custom_called p st)"
  using assms by (subst reactiveSetter.simps) (simp add: same_value_eq Let_def custom_called_def)

lemma setter_data:
  assumes "newVal \<noteq> reactive_value p (world st)"
    and "c_getter (closures (world st) p) = NoGetter"
    and "c_setter (closures (world st) p) = NoSetter"
  shows "reactiveSetter p newVal st =
           notify (c_dep (closures (world st) p))
             (upd_world (upd_closure p (\<lambda>c. c\<lparr>c_childOb := fst (after_observe p newVal st)\<rparr>))
                (snd (after_observe p newVal st)))"
  using assms
  by (subst reactiveSetter.simps)
     (simp add: same_value_eq Let_def after_observe_def stored_def case_prod_beta)


lemmas heap_defs = plain_def data_closure_def heap0_def upd_world_def upd_obj_def upd_closure_def
  new_Dep_def observable_def count_root_def attach_Observer_def install_def object_keys_def
  own_desc_def get_prop_def first_val_def pre_getter_def pre_setter_def not_configurable_def
  defineReactive_with_def Observer_with_def observe_with_def observe_def fuel_def

lemma custom_called_fields [simp]:
  "world (custom_called p st) = world st" "subs (custom_called p st) = subs st"
  "watchers (custom_called p st) = watchers st"
  "notifies_of (trace (custom_called p st)) = notifies_of (trace st)"
  "updates_of (trace (custom_called p st)) = updates_of (trace st)"
  "target (custom_called p st) = target st" "queue (custom_called p st) = queue st"
  by (simp_all add: custom_called_def)

lemma custom_called_trace:
  "trace (custom_called p st) =
     (if \<not> production st \<and> c_customSetter (closures (world st) p)
      then trace st @ [CustomSetterCalled (c_obj (closures (world st) p)) (c_key (closures (world st) p))]
      else trace st)"
  by (simp add: custom_called_def)

lemma defineReactive_getter_only:
  assumes a: "a < length (objs (world st))"
    and d: "map_of (props (objs (world st) ! a)) (Key s) = Some desc"
    and c: "configurable desc" and sl: "slot desc = Accessor g NoSetter"
  shows "own_desc (objs (world (defineReactive a (Key s) valarg cs sh st)) ! a) (Key s)
           = Some \<lparr>configurable = True, enumerable = True, writable = True,
                   slot = Reactive (closure_uid (world (defineReactive a (Key s) valarg cs sh st)) - 1)\<rparr>"
    and "c_getter (closures (world (defineReactive a (Key s) valarg cs sh st))
                     (closure_uid (world (defineReactive a (Key s) valarg cs sh st)) - 1)) = g"
    and "c_setter (closures (world (defineReactive a (Key s) valarg cs sh st))
                     (closure_uid (world (defineReactive a (Key s) valarg cs sh st)) - 1)) = NoSetter"
proof -
  let ?k = "Key s"
  obtain dd st1 where n: "new_Dep st = (dd, st1)" by (cases "new_Dep st")
  have o1: "objs (world st1) = objs (world st)" using n new_Dep_fields(1)[of st] by simp
  have od: "own_desc (objs (world st1) ! a) ?k = Some desc" using d o1 by (simp add: own_desc_def)
  have nc: "\<not> not_configurable (world st1) a ?k" using od c by (simp add: not_configurable_def)
  have "\<exists>childOb st2. defineReactive_with (observe_n (fuel st)) a ?k valarg cs sh st
            = Some (install a ?k dd valarg cs sh st1 childOb st2) \<and> grows st1 st2"
  proof (cases sh)
    case True
    with n nc have "defineReactive_with (observe_n (fuel st)) a ?k valarg cs sh st
            = Some (install a ?k dd valarg cs sh st1 None st1) \<and> grows st1 st1"
      by (simp add: defineReactive_with_def)
    then show ?thesis by blast
  next
    case False
    have l1: "length (objs (world st1)) = length (objs (world st))" using o1 by simp
    have "unobserved (world st1) \<le> length (objs (world st))"
      using unobserved_le_length[of "world st1"] l1 by simp
    with observe_n_total[of "length (objs (world st))"]
    obtain res st2 where ob: "observe_n (fuel st) (first_val (world st1) a ?k valarg) False st1 = Some (res, st2)"
      and g2: "grows st1 st2" unfolding total_on_def fuel_def by blast
    from n nc False ob have "defineReactive_with (observe_n (fuel st)) a ?k valarg cs sh st
            = Some (install a ?k dd valarg cs sh st1 res st2)"
      by (simp add: defineReactive_with_def)
    with g2 show ?thesis by blast
  qed
  then obtain childOb st2 where
    dr: "defineReactive a ?k valarg cs sh st = install a ?k dd valarg cs sh st1 childOb st2"
    and g: "grows st1 st2" by (auto simp: defineReactive_def)
  have a2: "a < length (objs (world st2))" using g a o1 by (simp add: grows_def)
  have cu: "closure_uid (world (install a ?k dd valarg cs sh st1 childOb st2)) - 1 = closure_uid (world st2)"
    by (simp add: install_def Let_def)
  show "own_desc (objs (world (defineReactive a (Key s) valarg cs sh st)) ! a) (Key s)
           = Some \<lparr>configurable = True, enumerable = True, writable = True,
                   slot = Reactive (closure_uid (world (defineReactive a (Key s) valarg cs sh st)) - 1)\<rparr>"
    unfolding dr cu using a2 by (simp add: install_def Let_def own_desc_def update_conv')
  show "c_getter (closures (world (defineReactive a (Key s) valarg cs sh st))
                     (closure_uid (world (defineReactive a (Key s) valarg cs sh st)) - 1)) = g"
    unfolding dr cu using od sl by (simp add: install_def Let_def pre_getter_def)
  show "c_setter (closures (world (defineReactive a (Key s) valarg cs sh st))
                     (closure_uid (world (defineReactive a (Key s) valarg cs sh st)) - 1)) = NoSetter"
    unfolding dr cu using od sl by (simp add: install_def Let_def pre_setter_def)
qed


section \<open>set\<close>

lemma set_fn_guard:
  assumes "a < length (objs (world st))"
    and "\<not> (kind (objs (world st) ! a) = Array \<and> (\<exists>i. k = Idx i))"
    and "\<not> has_key (objs (world st) ! a) k \<or> in_Object_prototype k"
    and "isVue (objs (world st) ! a) \<or> (\<exists>b. ob (objs (world st) ! a) = Some b \<and> 0 < vmCount b)"
  shows "set_fn (Ref a) k v st = (Inr v, if production st then st else warn avoid_adding_msg st)"
proof -
  have 1: "(kind (objs (world st) ! a) = Array \<and> (case k of Idx i \<Rightarrow> True | Key n \<Rightarrow> False)) = False"
    using assms(2) by (cases k) auto
  have 2: "(has_key (objs (world st) ! a) k \<and> \<not> in_Object_prototype k) = False"
    using assms(3) by blast
  have 3: "(isVue (objs (world st) ! a)
           \<or> (case ob (objs (world st) ! a) of Some b \<Rightarrow> vmCount b \<noteq> 0 | None \<Rightarrow> False)) = True"
    using assms(4) by auto
  have "set_fn (Ref a) k v st = (Inr v, if \<not> production st then warn avoid_adding_msg st else st)"
    unfolding set_fn_def Let_def by (simp only: isUndef.simps isPrimitive.simps
      jsval.case assms(1) 1 2 3 if_True if_False not_True_eq_False not_False_eq_True simp_thms)
  then show ?thesis by simp
qed


lemma warn_fields [simp]:
  "world (warn m st) = world st" "subs (warn m st) = subs st" "watchers (warn m st) = watchers st"
  "trace (warn m st) = trace st @ [Warned m]"
  by (simp_all add: warn_def)

section \<open>Watchers under evaluation: the invariant\<close>

lemma idle_simple [simp]:
  "idle_ok (log e st) = idle_ok st"
  "idle_ok (handleError x v i st) = idle_ok st"
  "idle_ok (st\<lparr>world := h\<rparr>) = idle_ok st"
  "idle_ok (st\<lparr>vms := m\<rparr>) = idle_ok st"
  "idle_ok (queueWatcher w st) = idle_ok st"
  by (simp_all add: idle_ok_def log_def handleError_def queueWatcher_def)

lemma idle_ok_cong:
  "targetStack st' = targetStack st \<Longrightarrow>
   (\<And>x. newDeps (watchers st' x) = newDeps (watchers st x)) \<Longrightarrow> idle_ok st \<Longrightarrow> idle_ok st'"
  by (simp add: idle_ok_def)





lemma stack_ok_depend: "stack_ok st \<Longrightarrow> stack_ok (depend d st)"
  by (simp add: stack_ok_def)







lemma newDeps_upd [simp]:
  "newDeps (watchers (upd_watcher w (\<lambda>W. W\<lparr>wvalue := v\<rparr>) st) x) = newDeps (watchers st x)"
  "newDeps (watchers (upd_watcher w (\<lambda>W. W\<lparr>dirty := b\<rparr>) st) x) = newDeps (watchers st x)"
  "newDeps (watchers (upd_watcher w (\<lambda>W. W\<lparr>active := b\<rparr>) st) x) = newDeps (watchers st x)"
  by (simp_all add: upd_watcher_def)

lemma idle_upd [simp]:
  "idle_ok (upd_watcher w (\<lambda>W. W\<lparr>wvalue := v\<rparr>) st) = idle_ok st"
  "idle_ok (upd_watcher w (\<lambda>W. W\<lparr>dirty := b\<rparr>) st) = idle_ok st"
  "idle_ok (upd_watcher w (\<lambda>W. W\<lparr>active := b\<rparr>) st) = idle_ok st"
  by (auto simp: idle_ok_def upd_watcher_def)

lemma stack_ok_simple [simp]:
  "stack_ok (log e st) = stack_ok st"
  "stack_ok (handleError x v i st) = stack_ok st"
  "stack_ok (upd_watcher w f st) = stack_ok st"
  "stack_ok (st\<lparr>world := h\<rparr>) = stack_ok st"
  "stack_ok (st\<lparr>vms := m\<rparr>) = stack_ok st"
  "stack_ok (queueWatcher w st) = stack_ok st"
  by (simp_all add: stack_ok_def log_def handleError_def upd_watcher_def queueWatcher_def)






lemma teardown_loop_stack [simp]:
  "target (teardown_loop w ds st) = target st"
  "targetStack (teardown_loop w ds st) = targetStack st"
  by (induction ds arbitrary: st) simp_all






section \<open>Attribution of reads\<close>

lemma depends_of_simps [simp]:
  "depends_of [] = []"
  "depends_of (es @ fs) = depends_of es @ depends_of fs"
  "depends_of (DependReached d t # es) = (d, t) # depends_of es"
  "depends_of (Updated x # es) = depends_of es"
  "depends_of (GetterCalled x # es) = depends_of es"
  "depends_of (Notified d # es) = depends_of es"
  "depends_of (CallbackCalled x v v' # es) = depends_of es"
  "depends_of (Reported y vv i # es) = depends_of es"
  "depends_of (Warned m # es) = depends_of es"
  "depends_of (CustomSetterCalled a k # es) = depends_of es"
  "depends_of (SetterCalled a k v # es) = depends_of es"
  by (simp_all add: depends_of_def)

lemma trace_traverse:
  "trace (traverse ds st) = trace st @ map (\<lambda>d. DependReached d (target st)) ds"
  unfolding traverse_def by (induction ds arbitrary: st) simp_all

lemma depends_of_reads:
  "depends_of (map (\<lambda>d. DependReached d t) ds) = map (\<lambda>d. (d, t)) ds"
  by (induction ds) simp_all

lemma flags_evolve:
  assumes "evolves st st'" and "\<forall>x. user (watchers st x) = usr x \<and> deep (watchers st x) = dp x"
  shows "\<forall>x. user (watchers st' x) = usr x \<and> deep (watchers st' x) = dp x"
  using assms dep_fields_onlyD(4,5)[OF evolves_watcher[OF assms(1)]] by simp

lemma attribution:
  "stack_ok st \<Longrightarrow> \<forall>x. user (watchers st x) = usr x \<and> deep (watchers st x) = dp x \<Longrightarrow>
     \<forall>t. target st = Some t \<longrightarrow>
       (\<exists>es. trace (snd (exec_acts as st)) = trace st @ es
            \<and> depends_of es = map (\<lambda>(d, x). (d, Some x)) (fst (reads_acts usr dp t as))
            \<and> fst (exec_acts as st) = snd (reads_acts usr dp t as))"
  "stack_ok st \<Longrightarrow> \<forall>x. user (watchers st x) = usr x \<and> deep (watchers st x) = dp x \<Longrightarrow>
     \<exists>es. trace (snd (get_ev w ev st)) = trace st @ es
         \<and> depends_of es = map (\<lambda>(d, x). (d, Some x)) (fst (reads_ev usr dp w ev))
         \<and> (case fst (get_ev w ev st) of Inl x \<Rightarrow> Some x | Inr v \<Rightarrow> None)
             = snd (reads_ev usr dp w ev)"
proof (induction as st and w ev st rule: exec_acts_get_ev.induct)
  case (1 st)
  then show ?case by simp
next
  case (2 d as st)
  have ok: "stack_ok (depend d st)" by (rule stack_ok_depend[OF 2(2)])
  have fl: "\<forall>x. user (watchers (depend d st) x) = usr x \<and> deep (watchers (depend d st) x) = dp x"
    by (rule flags_evolve[OF evolves_depend 2(3)])
  show ?case
  proof (intro allI impI)
    fix t assume t: "target st = Some t"
    from 2(1)[OF ok fl] t obtain es where
      es: "trace (snd (exec_acts as (depend d st))) = trace (depend d st) @ es"
          "depends_of es = map (\<lambda>(d, x). (d, Some x)) (fst (reads_acts usr dp t as))"
          "fst (exec_acts as (depend d st)) = snd (reads_acts usr dp t as)"
      by auto
    show "\<exists>es. trace (snd (exec_acts (Depend d # as) st)) = trace st @ es
            \<and> depends_of es = map (\<lambda>(d, x). (d, Some x)) (fst (reads_acts usr dp t (Depend d # as)))
            \<and> fst (exec_acts (Depend d # as) st) = snd (reads_acts usr dp t (Depend d # as))"
      using es t
      by (intro exI[of _ "DependReached d (Some t) # es"]) (simp add: case_prod_beta)
  qed
next
  case (3 w e as st)
  obtain r st' where g: "get_ev w e st = (r, st')" by (cases "get_ev w e st")
  from 3(1)[OF 3(3,4)] g obtain es1 where
    es1: "trace st' = trace st @ es1"
         "depends_of es1 = map (\<lambda>(d, x). (d, Some x)) (fst (reads_ev usr dp w e))"
         "(case r of Inl x \<Rightarrow> Some x | Inr v \<Rightarrow> None) = snd (reads_ev usr dp w e)"
    by auto
  from stack_unwinds(2)[OF 3(3), of w e] g
  have eq: "target st' = target st" "targetStack st' = targetStack st" by simp_all
  have ok1: "stack_ok st'" using eq 3(3) by (rule stack_ok_cong)
  have "evolves st st'" using evolves_exec_get(2)[of st w e] g by simp
  then have fl: "\<forall>x. user (watchers st' x) = usr x \<and> deep (watchers st' x) = dp x"
    using 3(4) by (rule flags_evolve)
  show ?case
  proof (cases r)
    case (Inl x)
    with es1 have "snd (reads_ev usr dp w e) = Some x" by simp
    then show ?thesis using g Inl es1
      by (auto simp: case_prod_beta split: prod.splits option.splits)
  next
    case (Inr v)
    with es1 have n: "snd (reads_ev usr dp w e) = None" by simp
    show ?thesis
    proof (intro allI impI)
      fix t assume t: "target st = Some t"
      with eq have t': "target st' = Some t" by simp
      from 3(2)[OF g[unfolded Inr, symmetric] refl ok1 fl] t' obtain es2 where
        es2: "trace (snd (exec_acts as st')) = trace st' @ es2"
             "depends_of es2 = map (\<lambda>(d, x). (d, Some x)) (fst (reads_acts usr dp t as))"
             "fst (exec_acts as st') = snd (reads_acts usr dp t as)"
        by auto
      show "\<exists>es. trace (snd (exec_acts (Nested w e # as) st)) = trace st @ es
            \<and> depends_of es = map (\<lambda>(d, x). (d, Some x)) (fst (reads_acts usr dp t (Nested w e # as)))
            \<and> fst (exec_acts (Nested w e # as) st) = snd (reads_acts usr dp t (Nested w e # as))"
        using es1 es2 g Inr n
        by (intro exI[of _ "es1 @ es2"]) (simp add: case_prod_beta split: prod.splits)
    qed
  qed
next
  case (4 w as out st)
  let ?st1 = "log (GetterCalled w) (pushTarget (Some w) st)"
  obtain thrown st2 where e: "exec_acts as ?st1 = (thrown, st2)" by (cases "exec_acts as ?st1")
  have ok1: "stack_ok ?st1" by (simp add: stack_ok_def)
  have fl1: "\<forall>x. user (watchers ?st1 x) = usr x \<and> deep (watchers ?st1 x) = dp x"
    using 4(3) by (simp add: pushTarget_def)
  have t1: "target ?st1 = Some w" by simp
  from 4(1)[OF refl ok1 fl1] t1 e obtain es where
    es: "trace st2 = trace st @ GetterCalled w # es"
        "depends_of es = map (\<lambda>(d, x). (d, Some x)) (fst (reads_acts usr dp w as))"
        "thrown = snd (reads_acts usr dp w as)"
    by auto
  from stack_unwinds(1)[OF ok1, of as] e have eq2: "target st2 = Some w" by simp
  have "evolves ?st1 st2" using evolves_exec_get(1)[of ?st1 as] e by simp
  then have fl2: "\<forall>x. user (watchers st2 x) = usr x \<and> deep (watchers st2 x) = dp x"
    using fl1 by (rule flags_evolve)
  obtain rs where rs: "reads_acts usr dp w as = (rs, thrown)"
    using es(3) by (cases "reads_acts usr dp w as") simp
  show ?case
    using e es(1,2) eq2 fl2 rs
    by (cases thrown; cases out)
       (auto simp: Let_def trace_traverse depends_of_reads case_prod_beta comp_def)
qed




lemma call_getter_stack:
  assumes "stack_ok st"
  shows "target (snd (call_getter w ev st)) = Some w"
    and "targetStack (snd (call_getter w ev st)) = targetStack st @ [Some w]"
proof -
  obtain as out where ev: "ev = Evaluation as out" by (cases ev)
  let ?st1 = "log (GetterCalled w) (pushTarget (Some w) st)"
  have ok1: "stack_ok ?st1" by (simp add: stack_ok_def)
  from stack_unwinds(1)[OF ok1, of as]
  have "target (snd (exec_acts as ?st1)) = Some w"
       "targetStack (snd (exec_acts as ?st1)) = targetStack st @ [Some w]" by simp_all
  then show "target (snd (call_getter w ev st)) = Some w"
    and "targetStack (snd (call_getter w ev st)) = targetStack st @ [Some w]"
    using ev by (auto simp: call_getter_def split: prod.splits option.splits)
qed




text \<open>
  C4. In every state that a sequence of evaluations, notifications and teardowns leads to,
  no subscriber array holds a Watcher more than once. \<open>addDep\<close> leaves the subscriber arrays
  alone when the Dep's id is in \<open>newDepIds\<close> or in \<open>depIds\<close>, and whatever Dep it is
  called with, no array holds a Watcher twice afterwards.
\<close>

theorem C4_at_most_once:
  assumes "reachable st"
  shows "(\<forall>d w. count_list (subs st d) w \<le> 1)
       \<and> (\<forall>w d. d \<in> newDepIds (watchers st w) \<or> d \<in> depIds (watchers st w)
               \<longrightarrow> subs (addDep w d st) = subs st)
       \<and> (\<forall>w d d' w'. count_list (subs (addDep w d st) d') w' \<le> 1)"
proof -
  have ok: "subs_ok st" using assms by (rule reachable_ok)
  have 1: "\<forall>d w. count_list (subs st d) w \<le> 1"
    using subs_ok_count[OF ok] by simp
  have 2: "\<forall>w d. d \<in> newDepIds (watchers st w) \<or> d \<in> depIds (watchers st w)
               \<longrightarrow> subs (addDep w d st) = subs st"
    by (auto simp: addDep_def Let_def)
  have 3: "\<forall>w d d' w'. count_list (subs (addDep w d st) d') w' \<le> 1"
    using subs_ok_count[OF addDep_ok[OF ok]] by simp
  from 1 2 3 show ?thesis by blast
qed

theorem C4_witness:
  "reachable (snd (get_ev 1 ev_b (snd (get_ev 1 ev_a (fresh ())))))
   \<and> count_list (subs (snd (get_ev 1 ev_b (snd (get_ev 1 ev_a (fresh ()))))) 0) 1 \<le> 1
   \<and> subs (snd (get_ev 1 ev_b (snd (get_ev 1 ev_a (fresh ()))))) 0 = [1]
   \<and> 0 \<in> depIds (watchers (snd (get_ev 1 ev_a (fresh ()))) 1)
   \<and> subs (addDep 1 0 (snd (get_ev 1 ev_a (fresh ())))) = subs (snd (get_ev 1 ev_a (fresh ())))"
proof -
  have i: "initial (fresh ())" by (simp add: initial_def fresh_def blank_def)
  have r1: "reachable (snd (get_ev 1 ev_a (fresh ())))"
    by (rule reachable.evaluation[OF reachable.start[OF i]])
  have r2: "reachable (snd (get_ev 1 ev_b (snd (get_ev 1 ev_a (fresh ())))))"
    by (rule reachable.evaluation[OF r1])
  have m: "0 \<in> depIds (watchers (snd (get_ev 1 ev_a (fresh ()))) 1)"
    by (simp add: ev_a_def eval_defs)
  have s: "subs (snd (get_ev 1 ev_b (snd (get_ev 1 ev_a (fresh ()))))) 0 = [1]"
    by (simp add: ev_a_def ev_b_def eval_defs)
  from C4_at_most_once[OF r2] C4_at_most_once[OF r1] r2 m s show ?thesis by blast
qed

text \<open>
  C5, as stated, fails: with \<open>config.async\<close> off in a production build the subscribers are
  not sorted. Watcher 2 is updated before Watcher 1.
\<close>

theorem C5_counterexample:
  "\<not> async (two_subs True False)
   \<and> \<not> sorted (updates_of (trace (snd (notify 0 (two_subs True False)))))"
  by (simp add: two_subs_def eval_defs run_defs)

text \<open>
  C5, amended. \<open>Dep.notify\<close> calls \<open>update\<close> on the subscribers it found when it was
  called, in their array order, or, when the build is not a production build and
  \<open>config.async\<close> is off, in ascending order of id; what the updates do to the subscriber
  array meanwhile does not change which Watchers are called. The calls stop early only
  when an \<open>update\<close> throws.
\<close>

theorem C5_notify_snapshot:
  "\<exists>k. k \<le> length (subs st d)
     \<and> updates_of (trace (snd (notify d st))) =
         updates_of (trace st) @
           take k (if \<not> production st \<and> \<not> async st then sort (subs st d) else subs st d)
     \<and> (fst (notify d st) = None \<longrightarrow> k = length (subs st d))"
proof (cases "\<not> production st \<and> \<not> async st")
  case True
  then have n: "notify d st = update_all (sort (subs st d)) (log (Notified d) st)"
    by (simp add: notify_def Let_def)
  show ?thesis
    using updates_update_all[of "sort (subs st d)" "log (Notified d) st"] True
    unfolding n by simp
next
  case False
  then have n: "notify d st = update_all (subs st d) (log (Notified d) st)"
    by (auto simp: notify_def Let_def)
  show ?thesis
    using updates_update_all[of "subs st d" "log (Notified d) st"] False
    unfolding n by auto
qed

theorem C5_witness:
  "fst (notify 0 (two_subs False False)) = None
   \<and> subs (two_subs False False) 0 = [2, 1]
   \<and> updates_of (trace (snd (notify 0 (two_subs False False)))) = [1, 2]
   \<and> subs (snd (notify 0 (two_subs False False))) 0 = []"
proof -
  have f: "fst (notify 0 (two_subs False False)) = None"
    by (simp add: two_subs_def eval_defs run_defs)
  have s: "subs (two_subs False False) 0 = [2, 1]" "\<not> production (two_subs False False)"
     "\<not> async (two_subs False False)" "trace (two_subs False False) = []"
    by (simp_all add: two_subs_def fresh_def)
  have e: "subs (snd (notify 0 (two_subs False False))) 0 = []"
    by (simp add: two_subs_def eval_defs run_defs)
  from C5_notify_snapshot[of "two_subs False False" 0] f s
  have "updates_of (trace (snd (notify 0 (two_subs False False)))) = [1, 2]" by auto
  with f s e show ?thesis by simp
qed

text \<open>
  C6. When the evaluation function throws during \<open>Watcher.get\<close>: a Watcher that is not
  user-defined lets the exception escape to the caller of \<open>get\<close> and nothing is reported;
  a user-defined Watcher has it reported through \<open>handleError\<close>, with the label
  \<open>getter for watcher "<expression>"\<close>, and \<open>get\<close> returns \<open>undefined\<close>. When the callback
  of an active user-defined Watcher throws inside \<open>run\<close>, the exception is reported with the
  label \<open>callback for watcher "<expression>"\<close> and \<open>run\<close> returns normally.
\<close>

theorem C6_errors:
  "(call_getter w ev st = (Throws x, st2) \<longrightarrow>
      (\<not> user (watchers st w) \<longrightarrow>
         fst (get_ev w ev st) = Inl x \<and> trace (snd (get_ev w ev st)) = trace st2)
      \<and> (user (watchers st w) \<longrightarrow>
         fst (get_ev w ev st) = Inr Undefined
         \<and> trace (snd (get_ev w ev st)) =
             trace st2 @ [Reported x (vm (watchers st w))
                            (''getter for watcher \"'' @ expression (watchers st w) @ ''\"'')]))
   \<and> (active (watchers st w) \<and> user (watchers st w) \<and> get w st = (Inr v, st1)
        \<and> (\<not> strict_eq v (wvalue (watchers st w)) \<or> isObject v \<or> deep (watchers st w))
        \<and> cb (watchers st w) v (wvalue (watchers st w)) = Some y \<longrightarrow>
      fst (run w st) = None
      \<and> trace (snd (run w st)) =
          trace st1 @ [CallbackCalled w v (wvalue (watchers st w)),
                       Reported y (vm (watchers st w))
                         (''callback for watcher \"'' @ expression (watchers st w) @ ''\"'')])"
proof -
  have a: "call_getter w ev st = (Throws x, st2) \<longrightarrow>
      (\<not> user (watchers st w) \<longrightarrow>
         fst (get_ev w ev st) = Inl x \<and> trace (snd (get_ev w ev st)) = trace st2)
      \<and> (user (watchers st w) \<longrightarrow>
         fst (get_ev w ev st) = Inr Undefined
         \<and> trace (snd (get_ev w ev st)) =
             trace st2 @ [Reported x (vm (watchers st w))
                            (''getter for watcher \"'' @ expression (watchers st w) @ ''\"'')])"
    using get_ev_throws[of w ev st x st2] by (simp add: getter_label_def)
  have b: "active (watchers st w) \<and> user (watchers st w) \<and> get w st = (Inr v, st1)
        \<and> (\<not> strict_eq v (wvalue (watchers st w)) \<or> isObject v \<or> deep (watchers st w))
        \<and> cb (watchers st w) v (wvalue (watchers st w)) = Some y \<longrightarrow>
      fst (run w st) = None
      \<and> trace (snd (run w st)) =
          trace st1 @ [CallbackCalled w v (wvalue (watchers st w)),
                       Reported y (vm (watchers st w))
                         (''callback for watcher \"'' @ expression (watchers st w) @ ''\"'')]"
    using run_callback_throws(1,2)[of st w v st1 y] by (simp add: callback_label_def)
  from a b show ?thesis by (rule conjI)
qed

theorem C6_witness:
  "call_getter 1 throwing users = (Throws ''boom'', snd (call_getter 1 throwing users))
   \<and> user (watchers users 1)
   \<and> fst (get_ev 1 throwing users) = Inr Undefined
   \<and> trace (snd (get_ev 1 throwing users)) =
       [GetterCalled 1, DependReached 0 (Some 1), Reported ''boom'' 0 ''getter for watcher \"a.b\"'']
   \<and> \<not> user (watchers users 3)
   \<and> call_getter 3 throwing users = (Throws ''boom'', snd (call_getter 3 throwing users))
   \<and> fst (get_ev 3 throwing users) = Inl ''boom''
   \<and> active (watchers users 2) \<and> user (watchers users 2)
   \<and> get 2 users = (Inr (Num 1), snd (get 2 users))
   \<and> cb (watchers users 2) (Num 1) (wvalue (watchers users 2)) = Some ''boom''
   \<and> fst (run 2 users) = None
   \<and> trace (snd (run 2 users)) =
       [GetterCalled 2, DependReached 0 (Some 2), CallbackCalled 2 (Num 1) Undefined,
        Reported ''boom'' 7 ''callback for watcher \"c\"'']"
proof -
  have g1: "call_getter 1 throwing users = (Throws ''boom'', snd (call_getter 1 throwing users))"
    by (simp add: call_getter_def throwing_def)
  have g3: "call_getter 3 throwing users = (Throws ''boom'', snd (call_getter 3 throwing users))"
    by (simp add: call_getter_def throwing_def)
  have t1: "trace (snd (call_getter 1 throwing users)) = [GetterCalled 1, DependReached 0 (Some 1)]"
    by (simp add: call_getter_def throwing_def users_def eval_defs)
  have u: "user (watchers users 1)" "\<not> user (watchers users 3)" "active (watchers users 2)"
    "user (watchers users 2)" "vm (watchers users 1) = 0" "expression (watchers users 1) = ''a.b''"
    "vm (watchers users 2) = 7" "expression (watchers users 2) = ''c''"
    "wvalue (watchers users 2) = Undefined"
    "cb (watchers users 2) (Num 1) (wvalue (watchers users 2)) = Some ''boom''"
    by (simp_all add: users_def fresh_def blank_def)
  have g2: "get 2 users = (Inr (Num 1), snd (get 2 users))"
    by (simp add: get_def users_def eval_defs)
  have t2: "trace (snd (get 2 users)) = [GetterCalled 2, DependReached 0 (Some 2)]"
    by (simp add: get_def users_def eval_defs)
  have ne: "\<not> strict_eq (Num 1) (wvalue (watchers users 2))"
    by (simp add: u strict_eq_def)
  from C6_errors[of 1 throwing users "''boom''" "snd (call_getter 1 throwing users)"] g1 u t1
  have r1: "fst (get_ev 1 throwing users) = Inr Undefined"
    "trace (snd (get_ev 1 throwing users)) =
       [GetterCalled 1, DependReached 0 (Some 1), Reported ''boom'' 0 ''getter for watcher \"a.b\"'']"
    by simp_all
  from C6_errors[of 3 throwing users "''boom''" "snd (call_getter 3 throwing users)"] g3 u
  have r3: "fst (get_ev 3 throwing users) = Inl ''boom''" by simp
  from C6_errors[of 2 _ users _ _ "Num 1" "snd (get 2 users)" "''boom''"] g2 u ne t2
  have r2: "fst (run 2 users) = None"
    "trace (snd (run 2 users)) =
       [GetterCalled 2, DependReached 0 (Some 2), CallbackCalled 2 (Num 1) Undefined,
        Reported ''boom'' 7 ''callback for watcher \"c\"'']"
    by simp_all
  from g1 g3 u g2 r1 r2 r3 show ?thesis by simp
qed

text \<open>
  C2, as stated, fails for a property that was defined shallow: the new value, an object
  that \<open>observe\<close> would give an Observer, is stored and is not observed.
\<close>

theorem C2_counterexample:
  "Ref 1 \<noteq> reactive_value 0 (world shallow_state)
   \<and> c_getter (closures (world shallow_state) 0) = NoGetter
   \<and> c_setter (closures (world shallow_state) 0) = NoSetter
   \<and> isObject (Ref 1)
   \<and> ob (objs (world (snd (observe (Ref 1) False shallow_state))) ! 1) \<noteq> None
   \<and> c_val (closures (world (snd (reactiveSetter 0 (Ref 1) shallow_state))) 0) = Ref 1
   \<and> ob (objs (world (snd (reactiveSetter 0 (Ref 1) shallow_state))) ! 1) = None
   \<and> c_childOb (closures (world (snd (reactiveSetter 0 (Ref 1) shallow_state))) 0) = None"
proof -
  have v: "reactive_value 0 (world shallow_state) = Num 1"
    by (simp add: reactive_value.simps[of 0] shallow_state_def fresh_def heap_defs)
  have c: "c_getter (closures (world shallow_state) 0) = NoGetter"
    "c_setter (closures (world shallow_state) 0) = NoSetter"
    "c_shallow (closures (world shallow_state) 0)"
    by (simp_all add: shallow_state_def fresh_def heap_defs)
  have o: "ob (objs (world (snd (observe (Ref 1) False shallow_state))) ! 1) \<noteq> None"
    by (rule observe_result(2)) (simp_all add: shallow_state_def fresh_def heap_defs)
  have ne: "Ref 1 \<noteq> reactive_value 0 (world shallow_state)" using v by simp
  have w: "world (snd (reactiveSetter 0 (Ref 1) shallow_state)) =
           upd_closure 0 (\<lambda>c. c\<lparr>c_childOb := None\<rparr>) (world (stored 0 (Ref 1) shallow_state))"
    unfolding setter_data[OF ne c(1,2)] using c(3)
    by (simp add: notify_frame after_observe_def)
  have r: "c_val (closures (world (snd (reactiveSetter 0 (Ref 1) shallow_state))) 0) = Ref 1"
    "ob (objs (world (snd (reactiveSetter 0 (Ref 1) shallow_state))) ! 1) = None"
    "c_childOb (closures (world (snd (reactiveSetter 0 (Ref 1) shallow_state))) 0) = None"
    unfolding w by (simp_all add: shallow_state_def fresh_def heap_defs)
  from ne c o r show ?thesis by simp
qed

text \<open>
  C2, amended. An assignment through the reactive setter of a value equal to the current
  one (two NaN count as equal) returns with the state unchanged: nothing stored,
  \<open>notify\<close> not called. Otherwise, for a data property (no pre-existing getter or
  setter): \<open>notify\<close> of the property's Dep is entered exactly once; the new value is
  stored; unless the property was defined shallow, \<open>observe(newVal)\<close> is called (and
  returns), its result becomes \<open>childOb\<close>, and a new value that is an observable or
  observed object has an Observer afterwards; for a shallow property nothing is observed
  and \<open>childOb\<close> is false.
\<close>

theorem C2_setter:
  "(newVal = reactive_value p (world st) \<longrightarrow> reactiveSetter p newVal st = (None, st))
   \<and> (newVal \<noteq> reactive_value p (world st)
        \<and> c_getter (closures (world st) p) = NoGetter
        \<and> c_setter (closures (world st) p) = NoSetter \<longrightarrow>
        notifies_of (trace (snd (reactiveSetter p newVal st))) =
          notifies_of (trace st) @ [c_dep (closures (world st) p)]
        \<and> (p < closure_uid (world st) \<longrightarrow>
             c_val (closures (world (snd (reactiveSetter p newVal st))) p) = newVal)
        \<and> (c_shallow (closures (world st) p) \<longrightarrow>
             world (snd (reactiveSetter p newVal st)) =
               upd_closure p (\<lambda>c. c\<lparr>c_childOb := None\<rparr>) (world (stored p newVal st)))
        \<and> (\<not> c_shallow (closures (world st) p) \<longrightarrow>
             (\<exists>r. observe_n (fuel (stored p newVal st)) newVal False (stored p newVal st) = Some r)
             \<and> world (snd (reactiveSetter p newVal st)) =
                 upd_closure p (\<lambda>c. c\<lparr>c_childOb := fst (observe newVal False (stored p newVal st))\<rparr>)
                   (world (snd (observe newVal False (stored p newVal st))))
             \<and> (\<forall>a. newVal = Ref a \<and> a < length (objs (world st))
                     \<and> kind (objs (world st) ! a) \<noteq> VNode
                     \<and> (ob (objs (world st) ! a) \<noteq> None \<or> observable (world st) a) \<longrightarrow>
                   ob (objs (world (snd (reactiveSetter p newVal st))) ! a) \<noteq> None
                   \<and> c_childOb (closures (world (snd (reactiveSetter p newVal st))) p) = Some a)))"
proof (intro conjI impI)
  assume "newVal = reactive_value p (world st)"
  then show "reactiveSetter p newVal st = (None, st)" by (rule setter_same)
next
  assume h: "newVal \<noteq> reactive_value p (world st)
        \<and> c_getter (closures (world st) p) = NoGetter
        \<and> c_setter (closures (world st) p) = NoSetter"
  note sd = setter_data[OF h[THEN conjunct1] h[THEN conjunct2, THEN conjunct1]
                 h[THEN conjunct2, THEN conjunct2]]
  let ?ao = "after_observe p newVal st"
  have g: "grows (stored p newVal st) (snd ?ao)"
    by (simp add: after_observe_def observe_grows)
  have w: "world (snd (reactiveSetter p newVal st)) =
           upd_closure p (\<lambda>c. c\<lparr>c_childOb := fst ?ao\<rparr>) (world (snd ?ao))"
    unfolding sd by (simp add: notify_frame)
  show "notifies_of (trace (snd (reactiveSetter p newVal st))) =
          notifies_of (trace st) @ [c_dep (closures (world st) p)]"
    unfolding sd using g by (simp add: notify_frame grows_def)
  {
    assume p: "p < closure_uid (world st)"
    with g have "closures (world (snd ?ao)) p = closures (world (stored p newVal st)) p"
      by (simp add: grows_def)
    then show "c_val (closures (world (snd (reactiveSetter p newVal st))) p) = newVal"
      unfolding w by simp
  }
  {
    assume "c_shallow (closures (world st) p)"
    then show "world (snd (reactiveSetter p newVal st)) =
               upd_closure p (\<lambda>c. c\<lparr>c_childOb := None\<rparr>) (world (stored p newVal st))"
      unfolding w by (simp add: after_observe_def)
  }
  {
    assume ns: "\<not> c_shallow (closures (world st) p)"
    show "\<exists>r. observe_n (fuel (stored p newVal st)) newVal False (stored p newVal st) = Some r"
      using observe_returns[of "stored p newVal st" newVal False] by blast
    show "world (snd (reactiveSetter p newVal st)) =
                 upd_closure p (\<lambda>c. c\<lparr>c_childOb := fst (observe newVal False (stored p newVal st))\<rparr>)
                   (world (snd (observe newVal False (stored p newVal st))))"
      unfolding w using ns by (simp add: after_observe_def)
    show "\<forall>a. newVal = Ref a \<and> a < length (objs (world st))
                     \<and> kind (objs (world st) ! a) \<noteq> VNode
                     \<and> (ob (objs (world st) ! a) \<noteq> None \<or> observable (world st) a) \<longrightarrow>
                   ob (objs (world (snd (reactiveSetter p newVal st))) ! a) \<noteq> None
                   \<and> c_childOb (closures (world (snd (reactiveSetter p newVal st))) p) = Some a"
    proof (intro allI impI)
      fix a assume a: "newVal = Ref a \<and> a < length (objs (world st))
                     \<and> kind (objs (world st) ! a) \<noteq> VNode
                     \<and> (ob (objs (world st) ! a) \<noteq> None \<or> observable (world st) a)"
      have 1: "a < length (objs (world (stored p newVal st)))" using a by simp
      have 2: "kind (objs (world (stored p newVal st)) ! a) \<noteq> VNode" using a by simp
      have 3: "ob (objs (world (stored p newVal st)) ! a) \<noteq> None
               \<or> observable (world (stored p newVal st)) a"
        using a by (simp add: observable_def)
      note r = observe_result[OF 1 2 3, of False]
      show "ob (objs (world (snd (reactiveSetter p newVal st))) ! a) \<noteq> None
            \<and> c_childOb (closures (world (snd (reactiveSetter p newVal st))) p) = Some a"
        unfolding w using r ns a by (simp add: after_observe_def)
    qed
  }
qed


theorem C2_witness:
  "Ref 1 \<noteq> reactive_value 0 (world data_state)
   \<and> c_getter (closures (world data_state) 0) = NoGetter
   \<and> c_setter (closures (world data_state) 0) = NoSetter
   \<and> \<not> c_shallow (closures (world data_state) 0)
   \<and> notifies_of (trace (snd (reactiveSetter 0 (Ref 1) data_state))) = [0]
   \<and> c_val (closures (world (snd (reactiveSetter 0 (Ref 1) data_state))) 0) = Ref 1
   \<and> ob (objs (world (snd (reactiveSetter 0 (Ref 1) data_state))) ! 1) \<noteq> None
   \<and> c_childOb (closures (world (snd (reactiveSetter 0 (Ref 1) data_state))) 0) = Some 1
   \<and> reactiveSetter 0 (Num 1) data_state = (None, data_state)
   \<and> reactive_value 0 (world nan_state) = NaN
   \<and> reactiveSetter 0 NaN nan_state = (None, nan_state)"
proof -
  have v: "reactive_value 0 (world data_state) = Num 1" "reactive_value 0 (world nan_state) = NaN"
    by (simp_all add: reactive_value.simps[of 0] nan_state_def data_state_def fresh_def heap_defs)
  have c: "c_getter (closures (world data_state) 0) = NoGetter"
    "c_setter (closures (world data_state) 0) = NoSetter"
    "\<not> c_shallow (closures (world data_state) 0)"
    "c_dep (closures (world data_state) 0) = 0"
    "0 < closure_uid (world data_state)" "trace data_state = []"
    "1 < length (objs (world data_state))" "kind (objs (world data_state) ! 1) \<noteq> VNode"
    "observable (world data_state) 1"
    by (simp_all add: data_state_def fresh_def heap_defs)
  have ne: "Ref 1 \<noteq> reactive_value 0 (world data_state)" using v by simp
  have H: "Ref 1 \<noteq> reactive_value 0 (world data_state)
        \<and> c_getter (closures (world data_state) 0) = NoGetter
        \<and> c_setter (closures (world data_state) 0) = NoSetter" using ne c by simp
  note R = C2_setter[of "Ref 1" 0 data_state, THEN conjunct2, THEN mp, OF H]
  from R[THEN conjunct1] c
  have n: "notifies_of (trace (snd (reactiveSetter 0 (Ref 1) data_state))) = [0]" by simp
  note s = R[THEN conjunct2, THEN conjunct1, THEN mp, OF c(5)]
  note A = R[THEN conjunct2, THEN conjunct2, THEN conjunct2, THEN mp, OF c(3),
             THEN conjunct2, THEN conjunct2, THEN spec, of 1]
  have "Ref 1 = Ref 1 \<and> 1 < length (objs (world data_state))
        \<and> kind (objs (world data_state) ! 1) \<noteq> VNode
        \<and> (ob (objs (world data_state) ! 1) \<noteq> None \<or> observable (world data_state) 1)"
    using c by simp
  from A[THEN mp, OF this]
  have o: "ob (objs (world (snd (reactiveSetter 0 (Ref 1) data_state))) ! 1) \<noteq> None
     \<and> c_childOb (closures (world (snd (reactiveSetter 0 (Ref 1) data_state))) 0) = Some 1" .
  from C2_setter[of "Num 1" 0 data_state] v
  have same: "reactiveSetter 0 (Num 1) data_state = (None, data_state)" by simp
  from C2_setter[of NaN 0 nan_state] v
  have nan: "reactiveSetter 0 NaN nan_state = (None, nan_state)" by simp
  from ne c n s o same nan v show ?thesis by simp
qed

text \<open>
  C3, as stated, fails: \<open>set\<close> on the root data object of a component, with a key it does
  not have, returns the value and stores nothing. The key is still absent afterwards.
\<close>

theorem C3_counterexample:
  "ob (objs (world root_state) ! 0) = Some \<lparr>ob_dep = 1, vmCount = 1\<rparr>
   \<and> \<not> has_key (objs (world root_state) ! 0) (Key ''b'')
   \<and> fst (set_fn (Ref 0) (Key ''b'') (Num 2) root_state) = Inr (Num 2)
   \<and> own_desc (objs (world (snd (set_fn (Ref 0) (Key ''b'') (Num 2) root_state))) ! 0) (Key ''b'') = None
   \<and> get_prop (world (snd (set_fn (Ref 0) (Key ''b'') (Num 2) root_state))) 0 (Key ''b'') = Undefined"
  by (simp add: set_fn_def root_state_def fresh_def has_key_def in_Object_prototype_def
      Object_prototype_keys_def warn_def log_def heap_defs)

text \<open>
  C3, amended. \<open>set(target, key, val)\<close> on an object that is a Vue instance or has an
  Observer with \<open>vmCount > 0\<close>, with a key that is not in the target (or is a key of
  \<open>Object.prototype\<close>) and is not an index into an array: the call returns \<open>val\<close> and
  raises nothing; outside production builds it reports the warning; and it performs no
  mutation: the heap, the subscriptions and the Watchers are unchanged, and the key is
  as absent from the target as before.
\<close>

theorem C3_set_on_root:
  assumes "a < length (objs (world st))"
    and "\<not> (kind (objs (world st) ! a) = Array \<and> (\<exists>i. k = Idx i))"
    and "\<not> has_key (objs (world st) ! a) k \<or> in_Object_prototype k"
    and "isVue (objs (world st) ! a) \<or> (\<exists>b. ob (objs (world st) ! a) = Some b \<and> 0 < vmCount b)"
  shows "fst (set_fn (Ref a) k v st) = Inr v
       \<and> world (snd (set_fn (Ref a) k v st)) = world st
       \<and> subs (snd (set_fn (Ref a) k v st)) = subs st
       \<and> watchers (snd (set_fn (Ref a) k v st)) = watchers st
       \<and> trace (snd (set_fn (Ref a) k v st)) =
           (if production st then trace st else trace st @ [Warned avoid_adding_msg])
       \<and> own_desc (objs (world (snd (set_fn (Ref a) k v st))) ! a) k = own_desc (objs (world st) ! a) k"
  unfolding set_fn_guard[OF assms] by simp

theorem C3_witness:
  "0 < length (objs (world root_state))
   \<and> kind (objs (world root_state) ! 0) = PlainObject
   \<and> \<not> has_key (objs (world root_state) ! 0) (Key ''b'')
   \<and> ob (objs (world root_state) ! 0) = Some \<lparr>ob_dep = 1, vmCount = 1\<rparr>
   \<and> fst (set_fn (Ref 0) (Key ''b'') (Num 2) root_state) = Inr (Num 2)
   \<and> world (snd (set_fn (Ref 0) (Key ''b'') (Num 2) root_state)) = world root_state
   \<and> trace (snd (set_fn (Ref 0) (Key ''b'') (Num 2) root_state)) = [Warned avoid_adding_msg]"
proof -
  have h: "0 < length (objs (world root_state))"
    "kind (objs (world root_state) ! 0) = PlainObject"
    "\<not> has_key (objs (world root_state) ! 0) (Key ''b'')"
    "ob (objs (world root_state) ! 0) = Some \<lparr>ob_dep = 1, vmCount = 1\<rparr>"
    "\<not> production root_state" "trace root_state = []"
    by (simp_all add: root_state_def fresh_def has_key_def heap_defs)
  have 2: "\<not> (kind (objs (world root_state) ! 0) = Array \<and> (\<exists>i. Key ''b'' = Idx i))" by simp
  have 3: "\<not> has_key (objs (world root_state) ! 0) (Key ''b'') \<or> in_Object_prototype (Key ''b'')"
    using h by simp
  have 4: "isVue (objs (world root_state) ! 0)
           \<or> (\<exists>b. ob (objs (world root_state) ! 0) = Some b \<and> 0 < vmCount b)"
    using h by simp
  from C3_set_on_root[OF h(1) 2 3 4, of "Num 2"] h show ?thesis by simp
qed




text \<open>
  C9. \<open>Watcher.update\<close> dispatches on the flags. A lazy Watcher only gets its \<open>dirty\<close> flag
  set: no Watcher field other than that changes, nothing is evaluated, no subscription
  and no queue entry changes. Otherwise a sync Watcher runs \<open>run()\<close> at once. Otherwise the
  Watcher is handed to \<open>queueWatcher\<close> and is pending afterwards; no Watcher and no
  subscription changes and no evaluation function is called.
\<close>

theorem C9_update_dispatch:
  "(lazy (watchers st w) \<longrightarrow>
      update w st = (None, upd_watcher w (\<lambda>W. W\<lparr>dirty := True\<rparr>) (log (Updated w) st))
      \<and> watchers (snd (update w st)) = (watchers st)(w := (watchers st w)\<lparr>dirty := True\<rparr>)
      \<and> trace (snd (update w st)) = trace st @ [Updated w]
      \<and> subs (snd (update w st)) = subs st \<and> queue (snd (update w st)) = queue st)
   \<and> (\<not> lazy (watchers st w) \<and> sync (watchers st w) \<longrightarrow>
      update w st = run w (log (Updated w) st))
   \<and> (\<not> lazy (watchers st w) \<and> \<not> sync (watchers st w) \<longrightarrow>
      update w st = (None, queueWatcher w (log (Updated w) st))
      \<and> w \<in> set (queue (snd (update w st)))
      \<and> watchers (snd (update w st)) = watchers st
      \<and> trace (snd (update w st)) = trace st @ [Updated w]
      \<and> subs (snd (update w st)) = subs st
      \<and> target (snd (update w st)) = target st)"
  by (simp add: update_def Let_def queueWatcher_mem)

theorem C9_witness:
  "lazy (watchers three_kinds 1)
   \<and> dirty (watchers (snd (update 1 three_kinds)) 1)
   \<and> trace (snd (update 1 three_kinds)) = [Updated 1]
   \<and> sync (watchers three_kinds 2) \<and> update 2 three_kinds = run 2 (log (Updated 2) three_kinds)
   \<and> trace (snd (update 2 three_kinds)) = [Updated 2, GetterCalled 2]
   \<and> \<not> sync (watchers three_kinds 3)
   \<and> queue (snd (update 3 three_kinds)) = [3]
   \<and> trace (snd (update 3 three_kinds)) = [Updated 3]"
proof -
  have k: "lazy (watchers three_kinds 1)" "\<not> lazy (watchers three_kinds 2)"
    "sync (watchers three_kinds 2)" "\<not> lazy (watchers three_kinds 3)"
    "\<not> sync (watchers three_kinds 3)" "trace three_kinds = []"
    by (simp_all add: three_kinds_def fresh_def blank_def)
  have q: "queue (snd (update 3 three_kinds)) = [3]"
    by (simp add: three_kinds_def eval_defs run_defs)
  have t: "trace (snd (update 2 three_kinds)) = [Updated 2, GetterCalled 2]"
    by (simp add: three_kinds_def eval_defs run_defs)
  from C9_update_dispatch[of three_kinds 1] C9_update_dispatch[of three_kinds 2]
    C9_update_dispatch[of three_kinds 3] k q t
  show ?thesis by simp
qed


text \<open>
  C10. A configurable property that has a getter and no setter when \<open>defineReactive\<close> is
  applied gets a closure that keeps that getter and has no setter. Through the reactive
  setter of a closure with a getter and no setter, an assignment of a value that differs
  from the current one returns normally with the heap, the subscriptions and the Watchers
  unchanged; no \<open>notify\<close> and no \<open>update\<close> is entered. Before returning, the setter has
  called \<open>customSetter\<close> if one was passed and the build is not a production build; that
  call is the only entry added to the log.
\<close>

theorem C10_getter_without_setter:
  "(a < length (objs (world st0))
      \<and> map_of (props (objs (world st0) ! a)) (Key s) = Some desc
      \<and> configurable desc \<and> slot desc = Accessor (UserGetter g) NoSetter \<longrightarrow>
      own_desc (objs (world (defineReactive a (Key s) valarg cs sh st0)) ! a) (Key s)
        = Some \<lparr>configurable = True, enumerable = True, writable = True,
                slot = Reactive (closure_uid (world (defineReactive a (Key s) valarg cs sh st0)) - 1)\<rparr>
      \<and> c_getter (closures (world (defineReactive a (Key s) valarg cs sh st0))
                     (closure_uid (world (defineReactive a (Key s) valarg cs sh st0)) - 1))
          = UserGetter g
      \<and> c_setter (closures (world (defineReactive a (Key s) valarg cs sh st0))
                     (closure_uid (world (defineReactive a (Key s) valarg cs sh st0)) - 1))
          = NoSetter)
   \<and> (c_getter (closures (world st) p) \<noteq> NoGetter
        \<and> c_setter (closures (world st) p) = NoSetter
        \<and> newVal \<noteq> reactive_value p (world st) \<longrightarrow>
        fst (reactiveSetter p newVal st) = None
        \<and> world (snd (reactiveSetter p newVal st)) = world st
        \<and> subs (snd (reactiveSetter p newVal st)) = subs st
        \<and> watchers (snd (reactiveSetter p newVal st)) = watchers st
        \<and> notifies_of (trace (snd (reactiveSetter p newVal st))) = notifies_of (trace st)
        \<and> updates_of (trace (snd (reactiveSetter p newVal st))) = updates_of (trace st)
        \<and> trace (snd (reactiveSetter p newVal st)) =
            (if \<not> production st \<and> c_customSetter (closures (world st) p)
             then trace st @ [CustomSetterCalled (c_obj (closures (world st) p))
                                                 (c_key (closures (world st) p))]
             else trace st))"
proof (intro conjI impI)
  assume h: "a < length (objs (world st0))
      \<and> map_of (props (objs (world st0) ! a)) (Key s) = Some desc
      \<and> configurable desc \<and> slot desc = Accessor (UserGetter g) NoSetter"
  note d = defineReactive_getter_only[OF h[THEN conjunct1] h[THEN conjunct2, THEN conjunct1]
      h[THEN conjunct2, THEN conjunct2, THEN conjunct1]
      h[THEN conjunct2, THEN conjunct2, THEN conjunct2], of valarg cs sh]
  show "own_desc (objs (world (defineReactive a (Key s) valarg cs sh st0)) ! a) (Key s)
        = Some \<lparr>configurable = True, enumerable = True, writable = True,
                slot = Reactive (closure_uid (world (defineReactive a (Key s) valarg cs sh st0)) - 1)\<rparr>"
    by (rule d(1))
  show "c_getter (closures (world (defineReactive a (Key s) valarg cs sh st0))
                     (closure_uid (world (defineReactive a (Key s) valarg cs sh st0)) - 1))
          = UserGetter g" by (rule d(2))
  show "c_setter (closures (world (defineReactive a (Key s) valarg cs sh st0))
                     (closure_uid (world (defineReactive a (Key s) valarg cs sh st0)) - 1))
          = NoSetter" by (rule d(3))
next
  assume h: "c_getter (closures (world st) p) \<noteq> NoGetter
        \<and> c_setter (closures (world st) p) = NoSetter
        \<and> newVal \<noteq> reactive_value p (world st)"
  note r = setter_getter_only[OF h[THEN conjunct2, THEN conjunct2] h[THEN conjunct1]
              h[THEN conjunct2, THEN conjunct1]]
  show "fst (reactiveSetter p newVal st) = None" unfolding r by simp
  show "world (snd (reactiveSetter p newVal st)) = world st" unfolding r by simp
  show "subs (snd (reactiveSetter p newVal st)) = subs st" unfolding r by simp
  show "watchers (snd (reactiveSetter p newVal st)) = watchers st" unfolding r by simp
  show "notifies_of (trace (snd (reactiveSetter p newVal st))) = notifies_of (trace st)"
    unfolding r by simp
  show "updates_of (trace (snd (reactiveSetter p newVal st))) = updates_of (trace st)"
    unfolding r by simp
  show "trace (snd (reactiveSetter p newVal st)) =
            (if \<not> production st \<and> c_customSetter (closures (world st) p)
             then trace st @ [CustomSetterCalled (c_obj (closures (world st) p))
                                                 (c_key (closures (world st) p))]
             else trace st)"
    unfolding r by (simp add: custom_called_trace)
qed

theorem C10_witness:
  "0 < length (objs (world getter_only_state))
   \<and> map_of (props (objs (world getter_only_state) ! 0)) (Key ''a'')
       = Some \<lparr>configurable = True, enumerable = True, writable = False,
               slot = Accessor (UserGetter (Num 5)) NoSetter\<rparr>
   \<and> closure_uid (world (defineReactive 0 (Key ''a'') None False False getter_only_state)) - 1 = 0
   \<and> c_getter (closures (world (defineReactive 0 (Key ''a'') None False False getter_only_state)) 0)
       = UserGetter (Num 5)
   \<and> c_setter (closures (world (defineReactive 0 (Key ''a'') None False False getter_only_state)) 0)
       = NoSetter
   \<and> Num 7 \<noteq> reactive_value 0 (world (defineReactive 0 (Key ''a'') None False False getter_only_state))
   \<and> fst (reactiveSetter 0 (Num 7) (defineReactive 0 (Key ''a'') None False False getter_only_state)) = None
   \<and> world (snd (reactiveSetter 0 (Num 7) (defineReactive 0 (Key ''a'') None False False getter_only_state)))
       = world (defineReactive 0 (Key ''a'') None False False getter_only_state)
   \<and> notifies_of (trace (snd (reactiveSetter 0 (Num 7)
         (defineReactive 0 (Key ''a'') None False False getter_only_state)))) = []"
proof -
  let ?st1 = "defineReactive 0 (Key ''a'') None False False getter_only_state"
  have h: "0 < length (objs (world getter_only_state))
     \<and> map_of (props (objs (world getter_only_state) ! 0)) (Key ''a'')
         = Some \<lparr>configurable = True, enumerable = True, writable = False,
               slot = Accessor (UserGetter (Num 5)) NoSetter\<rparr>
     \<and> configurable \<lparr>configurable = True, enumerable = True, writable = False,
               slot = Accessor (UserGetter (Num 5)) NoSetter\<rparr>
     \<and> slot \<lparr>configurable = True, enumerable = True, writable = False,
               slot = Accessor (UserGetter (Num 5)) NoSetter\<rparr> = Accessor (UserGetter (Num 5)) NoSetter"
    by (simp add: getter_only_state_def fresh_def heap_defs)
  have cu: "closure_uid (world ?st1) - 1 = 0" "trace ?st1 = []"
    by (simp_all add: defineReactive_def getter_only_state_def fresh_def heap_defs)
  note D = C10_getter_without_setter[of 0 getter_only_state "''a''" _ "Num 5" None False False,
             THEN conjunct1, THEN mp, OF h]
  from D cu have g: "c_getter (closures (world ?st1) 0) = UserGetter (Num 5)"
    and s: "c_setter (closures (world ?st1) 0) = NoSetter" by simp_all
  have v: "reactive_value 0 (world ?st1) = Num 5"
    using g by (simp add: reactive_value.simps[of 0])
  have h2: "c_getter (closures (world ?st1) 0) \<noteq> NoGetter
        \<and> c_setter (closures (world ?st1) 0) = NoSetter
        \<and> Num 7 \<noteq> reactive_value 0 (world ?st1)" using g s v by simp
  note S = C10_getter_without_setter[of _ _ _ _ _ _ _ _ ?st1 0 "Num 7",
             THEN conjunct2, THEN mp, OF h2]
  from S cu have r: "fst (reactiveSetter 0 (Num 7) ?st1) = None"
    "world (snd (reactiveSetter 0 (Num 7) ?st1)) = world ?st1"
    "notifies_of (trace (snd (reactiveSetter 0 (Num 7) ?st1))) = []"
    by simp_all
  from h cu g s v r show ?thesis by simp
qed

text \<open>
  C7. Pushes and pops of the evaluation context are paired, and every read is attributed
  to the Watcher whose evaluation function makes it. \<open>pushTarget\<close> puts its argument on the
  stack and makes it \<open>Dep.target\<close>; \<open>popTarget\<close> after it restores the stack and the target
  below. When the evaluation function called by \<open>Watcher.get\<close> ends, returning or
  throwing, \<open>Dep.target\<close> is the Watcher and the stack is the one before the call with the
  Watcher on top; after \<open>Watcher.get\<close>, and after each step inside an evaluation function,
  the stack and \<open>Dep.target\<close> are what they were before. The \<open>depend()\<close> calls that
  \<open>Watcher.get\<close> adds to the log, whatever the nesting and whether evaluations return or
  throw, are the reads of the evaluation in their order, and each found as \<open>Dep.target\<close>
  the Watcher whose evaluation function made it.
\<close>

theorem C7_target_stack_paired:
  assumes "stack_ok st"
  shows "target (pushTarget t st) = t
    \<and> targetStack (pushTarget t st) = targetStack st @ [t]
    \<and> targetStack (popTarget (pushTarget t st)) = targetStack st
    \<and> target (popTarget (pushTarget t st)) = target st
    \<and> target (snd (call_getter w ev st)) = Some w
    \<and> targetStack (snd (call_getter w ev st)) = targetStack st @ [Some w]
    \<and> target (snd (get_ev w ev st)) = target st
    \<and> targetStack (snd (get_ev w ev st)) = targetStack st
    \<and> target (snd (exec_acts as st)) = target st
    \<and> targetStack (snd (exec_acts as st)) = targetStack st
    \<and> take (length (trace st)) (trace (snd (get_ev w ev st))) = trace st
    \<and> depends_of (drop (length (trace st)) (trace (snd (get_ev w ev st))))
        = map (\<lambda>(d, x). (d, Some x))
            (fst (reads_ev (\<lambda>x. user (watchers st x)) (\<lambda>x. deep (watchers st x)) w ev))"
proof -
  have a: "target (pushTarget t st) = t \<and> targetStack (pushTarget t st) = targetStack st @ [t]
    \<and> targetStack (popTarget (pushTarget t st)) = targetStack st
    \<and> target (popTarget (pushTarget t st)) = target st"
    using assms by (simp add: stack_ok_def)
  from attribution(2)[OF assms, of "\<lambda>x. user (watchers st x)" "\<lambda>x. deep (watchers st x)" w ev]
  obtain es where es: "trace (snd (get_ev w ev st)) = trace st @ es"
    "depends_of es = map (\<lambda>(d, x). (d, Some x))
       (fst (reads_ev (\<lambda>x. user (watchers st x)) (\<lambda>x. deep (watchers st x)) w ev))"
    by auto
  have b: "take (length (trace st)) (trace (snd (get_ev w ev st))) = trace st
    \<and> depends_of (drop (length (trace st)) (trace (snd (get_ev w ev st))))
        = map (\<lambda>(d, x). (d, Some x))
            (fst (reads_ev (\<lambda>x. user (watchers st x)) (\<lambda>x. deep (watchers st x)) w ev))"
    using es by simp
  from a b call_getter_stack[OF assms, of w ev] stack_unwinds[OF assms] show ?thesis by blast
qed

theorem C7_witness:
  "stack_ok users
   \<and> target (snd (call_getter 1 nested users)) = Some 1
   \<and> target (snd (get_ev 1 nested users)) = target users
   \<and> targetStack (snd (get_ev 1 nested users)) = targetStack users
   \<and> depends_of (drop (length (trace users)) (trace (snd (get_ev 1 nested users))))
       = [(0, Some 1), (1, Some 2), (3, Some 1)]"
proof -
  have s: "stack_ok users" by (simp add: stack_ok_def users_def fresh_def)
  have r: "fst (reads_ev (\<lambda>x. user (watchers users x)) (\<lambda>x. deep (watchers users x)) 1 nested)
             = [(0, 1), (1, 2), (3, 1)]"
    by (simp add: nested_def users_def fresh_def blank_def)
  from C7_target_stack_paired[OF s, of _ 1 nested] r s show ?thesis by simp
qed

end
